theory Spec2Isabelle
  imports Main "HOL-Library.Word"
begin

section \<open>Meta-Schedule task extraction\<close>

text \<open>
  The embedding of \<^verbatim>\<open>src/relax/backend/task_extraction.cc\<close>: the class
  \<^verbatim>\<open>TaskExtractor\<close>, its visitor method on call nodes and the static entry point
  \<^verbatim>\<open>ExtractTask\<close>.
\<close>

subsection \<open>Data\<close>

text \<open>
  A \<^verbatim>\<open>GlobalVar\<close> is a reference to an object carrying a name hint. The module's
  function table is keyed by the reference, so two global variables are the same key
  exactly when they are the same value here.
\<close>

datatype GlobalVar = GlobalVar (name_hint: string) (gv_ref: nat)

text \<open>
  The expressions a call node can hold as operator and arguments. The extractor looks
  at three things only: whether the operator is the registered operator
  \<^verbatim>\<open>relax.call_tir\<close>, whether the first argument is an \<^verbatim>\<open>ExternFuncNode\<close>,
  and whether it is a \<^verbatim>\<open>GlobalVar\<close>.
\<close>

datatype Expr =
    OpExpr string
  | GlobalVarExpr GlobalVar
  | ExternFuncExpr string
  | VarExpr string
  | TupleExpr "Expr list"
  | CallExpr Expr "Expr list"

record CallNode =
  op :: Expr
  args :: "Expr list"

text \<open>
  A function of the module is a Relax function or a TIR \<^verbatim>\<open>PrimFunc\<close>. The
  extractor inherits its traversal of a Relax function from \<^verbatim>\<open>ExprVisitor\<close>
  (\<^verbatim>\<open>expr_functor.h\<close>, not part of these sources); the only method it overrides is
  the one on call nodes, which does not recurse. A Relax function is therefore
  represented by the call nodes the inherited traversal hands to that method, in
  visiting order. The source takes the function to be in A-normal form (comment at
  lines 71 and 72), where no call is an argument of another call, so that these are
  all the calls of the function; a call that stands inside the operator or the
  arguments of a listed call is a call of the function that the method is never
  handed. The contents of a \<^verbatim>\<open>PrimFunc\<close> are never inspected, so its type is
  a parameter \<open>'f\<close>.
\<close>

datatype 'f BaseFunc =
    FunctionNode "CallNode list"
  | PrimFunc 'f

text \<open>
  \<^verbatim>\<open>mod->functions\<close> is listed in its iteration order.
\<close>

record 'f IRModule =
  "functions" :: "(GlobalVar \<times> 'f BaseFunc) list"

text \<open>
  \<^verbatim>\<open>ExtractedTask(task_name, mod, target, dispatched, weight)\<close>. The field
  \<^verbatim>\<open>mod\<close> is named \<open>task_mod\<close> here. The weight is the \<^verbatim>\<open>int\<close> field the
  source initialises to 1 and increments (its declaration is in
  \<^verbatim>\<open>meta_schedule/extracted_task.h\<close>): a 32-bit machine integer, read as a signed
  number by \<open>sint\<close>. The increment wraps around at \<open>2147483647\<close>, as the compiled
  addition does; the language itself leaves the signed overflow undefined.
\<close>

record ('m, 't) ExtractedTaskNode =
  task_name :: string
  task_mod :: 'm
  target :: 't
  dispatched :: "'m list"
  weight :: "32 word"

text \<open>
  The failures of the extractor: each is a fatal check of the source.
  \<^item> \<open>ParseModNotFound\<close>: \<^verbatim>\<open>ICHECK(parse_mod_func_)\<close> in the constructor;
  \<^item> \<open>ArgsOutOfRange\<close>: \<^verbatim>\<open>call->args[0]\<close> on an empty argument array;
  \<^item> \<open>DowncastFailed\<close>: \<^verbatim>\<open>Downcast<GlobalVar>\<close> or
    \<^verbatim>\<open>Downcast<tir::PrimFunc>\<close> on an object of another type;
  \<^item> \<open>LookupFailed\<close>: \<^verbatim>\<open>mod_->Lookup(global_var)\<close> on a variable the module
    does not define.
\<close>

datatype extract_error = ParseModNotFound | ArgsOutOfRange | DowncastFailed | LookupFailed

text \<open>
  The extractor object. An \<^verbatim>\<open>ExtractedTask\<close> is a reference to a heap node, and
  the same reference is stored in \<^verbatim>\<open>tasks_\<close> and in \<^verbatim>\<open>func2task_\<close>:
  the increment through the map entry is visible through the array. The nodes
  therefore live in an explicit store (a list, the address of a node being its index),
  and both containers hold addresses. The members \<^verbatim>\<open>mod_\<close>, \<^verbatim>\<open>target_\<close>,
  \<^verbatim>\<open>tasks_\<close>, \<^verbatim>\<open>func2task_\<close> and \<^verbatim>\<open>parse_mod_func_\<close> are the
  fields \<open>m_mod\<close>, \<open>m_target\<close>, \<open>m_tasks\<close>, \<open>m_func2task\<close> and
  \<open>m_parse_mod_func\<close>.
\<close>

record ('f, 'm, 't) TaskExtractor =
  m_mod :: "'f IRModule"
  m_target :: 't
  m_tasks :: "nat list"
  m_func2task :: "('f \<times> nat) list"
  m_parse_mod_func :: "'f \<Rightarrow> 'm"
  store :: "('m, 't) ExtractedTaskNode list"

subsection \<open>Operations\<close>

definition call_tir_op :: Expr where
  "call_tir_op = OpExpr ''relax.call_tir''"

text \<open>\<^verbatim>\<open>IRModuleNode::Lookup\<close>: the function a global variable is bound to.\<close>

definition Lookup :: "'f IRModule \<Rightarrow> GlobalVar \<Rightarrow> 'f BaseFunc option" where
  "Lookup m gv = map_of (functions m) gv"

text \<open>
  \<^verbatim>\<open>func2task_\<close> is an \<^verbatim>\<open>unordered_map\<close> whose key equality is
  \<^verbatim>\<open>StructuralEqual\<close> (with \<^verbatim>\<open>StructuralHash\<close>, which the container requires
  to agree on equal keys). Structural equality of \<^verbatim>\<open>PrimFunc\<close>s is defined outside
  these sources and is a parameter \<open>eq\<close> of the lookup. \<open>map_find\<close> is
  \<^verbatim>\<open>find\<close>: the entry whose key is equal to the given one. \<open>map_emplace\<close> is
  \<^verbatim>\<open>emplace\<close>: it inserts unless an equal key is present.
\<close>

fun map_find :: "('k \<Rightarrow> 'k \<Rightarrow> bool) \<Rightarrow> ('k \<times> 'v) list \<Rightarrow> 'k \<Rightarrow> 'v option" where
  "map_find eq [] k = None"
| "map_find eq ((k', v) # kvs) k = (if eq k' k then Some v else map_find eq kvs k)"

definition map_emplace :: "('k \<Rightarrow> 'k \<Rightarrow> bool) \<Rightarrow> ('k \<times> 'v) list \<Rightarrow> 'k \<Rightarrow> 'v \<Rightarrow> ('k \<times> 'v) list" where
  "map_emplace eq kvs k v = (case map_find eq kvs k of Some _ \<Rightarrow> kvs | None \<Rightarrow> kvs @ [(k, v)])"

text \<open>
  \<^verbatim>\<open>void VisitExpr_(const CallNode* call)\<close>, lines 65 to 98. The branches follow
  the source in order: a call of another operator returns; the first argument is read;
  an external function returns; the argument is cast to a global variable, looked up
  in the module and cast to a \<^verbatim>\<open>PrimFunc\<close>; a hit in \<^verbatim>\<open>func2task_\<close>
  increments the weight of the node the entry refers to; a miss builds a task of weight
  1 from the parsed module, pushes it on \<^verbatim>\<open>tasks_\<close> and enters it in the map.
\<close>

definition VisitExpr_CallNode ::
  "('f \<Rightarrow> 'f \<Rightarrow> bool) \<Rightarrow> ('f, 'm, 't) TaskExtractor \<Rightarrow> CallNode
    \<Rightarrow> extract_error + ('f, 'm, 't) TaskExtractor" where
  "VisitExpr_CallNode StructuralEqual ex call =
    (if op call \<noteq> call_tir_op then Inr ex
     else case args call of
       [] \<Rightarrow> Inl ArgsOutOfRange
     | callee # _ \<Rightarrow>
        (case callee of
           ExternFuncExpr _ \<Rightarrow> Inr ex
         | GlobalVarExpr global_var \<Rightarrow>
            (case Lookup (m_mod ex) global_var of
               None \<Rightarrow> Inl LookupFailed
             | Some (FunctionNode _) \<Rightarrow> Inl DowncastFailed
             | Some (PrimFunc func) \<Rightarrow>
                (case map_find StructuralEqual (m_func2task ex) func of
                   Some it \<Rightarrow>
                     Inr (ex\<lparr>store := (store ex)
                            [it := (store ex ! it)\<lparr>weight := weight (store ex ! it) + 1\<rparr>]\<rparr>)
                 | None \<Rightarrow>
                    (let tir_mod = m_parse_mod_func ex func;
                         task = \<lparr>task_name = name_hint global_var, task_mod = tir_mod,
                                 target = m_target ex, dispatched = [tir_mod], weight = 1\<rparr>;
                         addr = length (store ex)
                     in Inr (ex\<lparr>store := store ex @ [task],
                                m_tasks := m_tasks ex @ [addr],
                                m_func2task :=
                                  map_emplace StructuralEqual (m_func2task ex) func addr\<rparr>))))
         | _ \<Rightarrow> Inl DowncastFailed))"

text \<open>
  \<^verbatim>\<open>extractor(GetRef<Function>(func))\<close>: the inherited traversal calls the method
  above on each call node of the function in turn; a failed check aborts it.
\<close>

fun VisitFunction ::
  "('f \<Rightarrow> 'f \<Rightarrow> bool) \<Rightarrow> ('f, 'm, 't) TaskExtractor \<Rightarrow> CallNode list
    \<Rightarrow> extract_error + ('f, 'm, 't) TaskExtractor" where
  "VisitFunction eq ex [] = Inr ex"
| "VisitFunction eq ex (call # calls) =
     (case VisitExpr_CallNode eq ex call of
        Inl e \<Rightarrow> Inl e
      | Inr ex' \<Rightarrow> VisitFunction eq ex' calls)"

text \<open>
  The loop of \<^verbatim>\<open>ExtractTask\<close> over \<^verbatim>\<open>mod->functions\<close>, lines 50 to 54: only
  Relax functions are visited.
\<close>

fun VisitModule ::
  "('f \<Rightarrow> 'f \<Rightarrow> bool) \<Rightarrow> ('f, 'm, 't) TaskExtractor \<Rightarrow> (GlobalVar \<times> 'f BaseFunc) list
    \<Rightarrow> extract_error + ('f, 'm, 't) TaskExtractor" where
  "VisitModule eq ex [] = Inr ex"
| "VisitModule eq ex (kv # kvs) =
     (case snd kv of
        FunctionNode calls \<Rightarrow>
          (case VisitFunction eq ex calls of
             Inl e \<Rightarrow> Inl e
           | Inr ex' \<Rightarrow> VisitModule eq ex' kvs)
      | PrimFunc _ \<Rightarrow> VisitModule eq ex kvs)"

text \<open>
  The constructor, lines 59 to 63. \<open>registry\<close> is what the global function registry
  holds under \<^verbatim>\<open>tvm.meta_schedule.tune.parse_mod\<close>.
\<close>

definition TaskExtractor_new ::
  "('f \<Rightarrow> 'm) option \<Rightarrow> 'f IRModule \<Rightarrow> 't \<Rightarrow> extract_error + ('f, 'm, 't) TaskExtractor" where
  "TaskExtractor_new registry m t =
    (case registry of
       None \<Rightarrow> Inl ParseModNotFound
     | Some parse_mod \<Rightarrow>
         Inr \<lparr>m_mod = m, m_target = t, m_tasks = [], m_func2task = [],
              m_parse_mod_func = parse_mod, store = []\<rparr>)"

text \<open>
  \<^verbatim>\<open>ExtractTask\<close>, lines 47 to 56. The returned array holds references; the
  caller reads the nodes they refer to in the store as the traversal left it.
\<close>

definition ExtractTask ::
  "('f \<Rightarrow> 'f \<Rightarrow> bool) \<Rightarrow> ('f \<Rightarrow> 'm) option \<Rightarrow> 'f IRModule \<Rightarrow> 't
    \<Rightarrow> extract_error + ('m, 't) ExtractedTaskNode list" where
  "ExtractTask StructuralEqual registry m t =
    (case TaskExtractor_new registry m t of
       Inl e \<Rightarrow> Inl e
     | Inr extractor \<Rightarrow>
        (case VisitModule StructuralEqual extractor (functions m) of
           Inl e \<Rightarrow> Inl e
         | Inr ex \<Rightarrow> Inr (map (\<lambda>a. store ex ! a) (m_tasks ex))))"

subsection \<open>Call sites, classes and first encounters\<close>

text \<open>
  The definitions of this subsection state what the extraction is expected to return.
  They are not part of the program.

  \<open>function_calls\<close> lists the call nodes visited for a function table: those of its
  Relax functions, in iteration order. \<open>relax_calls\<close> is that list for a module.
\<close>

definition function_calls :: "(GlobalVar \<times> 'f BaseFunc) list \<Rightarrow> CallNode list" where
  "function_calls kvs =
     concat (map (\<lambda>kv. case snd kv of FunctionNode calls \<Rightarrow> calls | PrimFunc _ \<Rightarrow> []) kvs)"

definition relax_calls :: "'f IRModule \<Rightarrow> CallNode list" where
  "relax_calls m = function_calls (functions m)"

text \<open>
  A call-TIR call site that references a \<^verbatim>\<open>PrimFunc\<close>: a call of
  \<^verbatim>\<open>relax.call_tir\<close> whose first argument is a global variable that the module
  binds to a \<^verbatim>\<open>PrimFunc\<close>. \<open>call_site_ref\<close> gives the variable and the function;
  \<open>call_tir_sites\<close> lists these references for all visited calls, in visiting order.
\<close>

definition call_site_ref :: "'f IRModule \<Rightarrow> CallNode \<Rightarrow> (GlobalVar \<times> 'f) option" where
  "call_site_ref m call =
    (if op call = call_tir_op then
       (case args call of
          GlobalVarExpr gv # _ \<Rightarrow>
            (case Lookup m gv of Some (PrimFunc f) \<Rightarrow> Some (gv, f) | _ \<Rightarrow> None)
        | _ \<Rightarrow> None)
     else None)"

definition call_tir_sites :: "'f IRModule \<Rightarrow> (GlobalVar \<times> 'f) list" where
  "call_tir_sites m = List.map_filter (call_site_ref m) (relax_calls m)"






text \<open>
  The checks of the visitor pass on a call when it is not a call of
  \<^verbatim>\<open>relax.call_tir\<close>, or when its first argument exists and is an external function
  or a global variable bound to a \<^verbatim>\<open>PrimFunc\<close>. A module is \<open>well_formed\<close> when
  this holds of every visited call; on any other module a fatal check aborts the
  extraction (lemma \<open>ExtractTask_fails\<close> below).
\<close>

definition call_ok :: "'f IRModule \<Rightarrow> CallNode \<Rightarrow> bool" where
  "call_ok m call =
    (if op call = call_tir_op then
       (case args call of
          ExternFuncExpr _ # _ \<Rightarrow> True
        | GlobalVarExpr gv # _ \<Rightarrow>
            (case Lookup m gv of Some (PrimFunc _) \<Rightarrow> True | _ \<Rightarrow> False)
        | _ \<Rightarrow> False)
     else True)"

definition well_formed :: "'f IRModule \<Rightarrow> bool" where
  "well_formed m = list_all (call_ok m) (relax_calls m)"

text \<open>
  \<open>first_encounters eq sites\<close> lists, in increasing order, the positions of the sites
  whose \<^verbatim>\<open>PrimFunc\<close> is not structurally equal to that of any earlier site: the
  positions at which a class of structurally equal functions is met for the first
  time. \<open>first_sites eq [] sites\<close> computes the sites at these positions by one pass
  that remembers every function seen so far (lemma \<open>first_sites_encounters\<close>).
\<close>

definition first_encounters :: "('f \<Rightarrow> 'f \<Rightarrow> bool) \<Rightarrow> (GlobalVar \<times> 'f) list \<Rightarrow> nat list" where
  "first_encounters eq sites =
     filter (\<lambda>i. \<forall>j\<in>{0..<i}. \<not> eq (snd (sites ! j)) (snd (sites ! i))) [0..<length sites]"

fun first_sites :: "('f \<Rightarrow> 'f \<Rightarrow> bool) \<Rightarrow> 'f list \<Rightarrow> (GlobalVar \<times> 'f) list \<Rightarrow> (GlobalVar \<times> 'f) list" where
  "first_sites eq seen [] = []"
| "first_sites eq seen (r # rs) =
     (if \<exists>s\<in>set seen. eq s (snd r) then first_sites eq (seen @ [snd r]) rs
      else r # first_sites eq (seen @ [snd r]) rs)"

text \<open>
  \<open>class_weight eq sites f\<close> is the number of sites whose function is structurally
  equal to \<open>f\<close>, as a 32-bit machine integer. \<open>expected_task\<close> is the task expected for the class first met at a
  site, and \<open>abs_state\<close> is the extractor expected after the listed sites have been
  visited.
\<close>

definition class_weight :: "('f \<Rightarrow> 'f \<Rightarrow> bool) \<Rightarrow> (GlobalVar \<times> 'f) list \<Rightarrow> 'f \<Rightarrow> 32 word" where
  "class_weight eq sites f = word_of_nat (length (filter (\<lambda>s. eq f (snd s)) sites))"

definition expected_task ::
  "('f \<Rightarrow> 'f \<Rightarrow> bool) \<Rightarrow> ('f \<Rightarrow> 'm) \<Rightarrow> 't \<Rightarrow> (GlobalVar \<times> 'f) list \<Rightarrow> GlobalVar \<times> 'f \<Rightarrow> ('m, 't) ExtractedTaskNode" where
  "expected_task eq pm t sites r =
     \<lparr>task_name = name_hint (fst r), task_mod = pm (snd r), target = t,
      dispatched = [pm (snd r)], weight = class_weight eq sites (snd r)\<rparr>"

definition abs_state ::
  "('f \<Rightarrow> 'f \<Rightarrow> bool) \<Rightarrow> ('f \<Rightarrow> 'm) \<Rightarrow> 'f IRModule \<Rightarrow> 't \<Rightarrow> (GlobalVar \<times> 'f) list \<Rightarrow> ('f, 'm, 't) TaskExtractor" where
  "abs_state eq pm m t sites =
     (let F = first_sites eq [] sites in
      \<lparr>m_mod = m, m_target = t, m_tasks = [0..<length F],
       m_func2task = zip (map snd F) [0..<length F],
       m_parse_mod_func = pm, store = map (expected_task eq pm t sites) F\<rparr>)"

subsection \<open>An example module\<close>

text \<open>
  A \<^verbatim>\<open>PrimFunc\<close> is a pair of its structure and its object identity here, and
  structural equality compares the structure. The module has two Relax functions,
  \<^verbatim>\<open>main\<close> and \<^verbatim>\<open>aux\<close>, and three \<^verbatim>\<open>PrimFunc\<close>s, of which
  \<^verbatim>\<open>fn1\<close> and \<^verbatim>\<open>fn3\<close> are structurally equal.
\<close>

definition ex_eq :: "string \<times> nat \<Rightarrow> string \<times> nat \<Rightarrow> bool" where
  "ex_eq a b = (fst a = fst b)"

definition ex_mod :: "(string \<times> nat) IRModule" where
  "ex_mod = \<lparr>functions =
     [(GlobalVar ''main'' 0, FunctionNode
         [\<lparr>op = call_tir_op, args = [GlobalVarExpr (GlobalVar ''fn1'' 1), VarExpr ''x'']\<rparr>,
          \<lparr>op = OpExpr ''relax.add'', args = [VarExpr ''x'', VarExpr ''y'']\<rparr>,
          \<lparr>op = call_tir_op, args = [GlobalVarExpr (GlobalVar ''fn2'' 2), VarExpr ''y'']\<rparr>,
          \<lparr>op = call_tir_op, args = [ExternFuncExpr ''my_extern'', VarExpr ''y'']\<rparr>,
          \<lparr>op = call_tir_op, args = [GlobalVarExpr (GlobalVar ''fn3'' 3), VarExpr ''z'']\<rparr>]),
      (GlobalVar ''fn1'' 1, PrimFunc (''matmul'', 1)),
      (GlobalVar ''fn2'' 2, PrimFunc (''relu'', 2)),
      (GlobalVar ''fn3'' 3, PrimFunc (''matmul'', 3)),
      (GlobalVar ''aux'' 4, FunctionNode
         [\<lparr>op = call_tir_op, args = [GlobalVarExpr (GlobalVar ''fn3'' 3), VarExpr ''w'']\<rparr>])]\<rparr>"





subsection \<open>First encounters\<close>

lemma first_sites_snoc:
  "first_sites eq seen (rs @ [r]) =
     first_sites eq seen rs @ (if \<exists>s\<in>set (seen @ map snd rs). eq s (snd r) then [] else [r])"
  by (induction rs arbitrary: seen) auto

lemma first_sites_subset: "set (first_sites eq seen rs) \<subseteq> set rs"
  by (induction rs arbitrary: seen) auto

lemma first_sites_covers:
  assumes "symp eq" "transp eq"
  shows "(\<exists>s\<in>set (seen @ map snd rs). eq s f) \<longleftrightarrow>
         (\<exists>s\<in>set seen. eq s f) \<or> (\<exists>r\<in>set (first_sites eq seen rs). eq (snd r) f)"
proof (induction rs arbitrary: seen)
  case Nil
  then show ?case by simp
next
  case (Cons r rs)
  have tr: "\<And>a b c. eq a b \<Longrightarrow> eq b c \<Longrightarrow> eq a c"
    using assms(2) by (rule transpD)
  have sy: "\<And>a b. eq a b \<Longrightarrow> eq b a"
    using assms(1) by (rule sympD)
  have IH: "(\<exists>s\<in>set ((seen @ [snd r]) @ map snd rs). eq s f) \<longleftrightarrow>
         (\<exists>s\<in>set (seen @ [snd r]). eq s f) \<or>
         (\<exists>r'\<in>set (first_sites eq (seen @ [snd r]) rs). eq (snd r') f)"
    by (rule Cons.IH)
  show ?case
  proof (cases "\<exists>s\<in>set seen. eq s (snd r)")
    case True
    then obtain s where s: "s \<in> set seen" "eq s (snd r)" by blast
    have "eq (snd r) f \<Longrightarrow> \<exists>s\<in>set seen. eq s f"
      using s tr by blast
    with True IH show ?thesis by auto
  next
    case False
    with IH show ?thesis by auto
  qed
qed

lemma first_sites_inequiv:
  assumes "symp eq" "transp eq"
  shows "i < j \<Longrightarrow> j < length (first_sites eq [] rs) \<Longrightarrow>
         \<not> eq (snd (first_sites eq [] rs ! i)) (snd (first_sites eq [] rs ! j))"
proof (induction rs arbitrary: i j rule: rev_induct)
  case Nil
  then show ?case by simp
next
  case (snoc r rs)
  let ?F = "first_sites eq [] rs"
  show ?case
  proof (cases "\<exists>s\<in>set (map snd rs). eq s (snd r)")
    case True
    then have "first_sites eq [] (rs @ [r]) = ?F"
      by (simp add: first_sites_snoc)
    with snoc show ?thesis by simp
  next
    case False
    then have F': "first_sites eq [] (rs @ [r]) = ?F @ [r]"
      by (simp add: first_sites_snoc)
    show ?thesis
    proof (cases "j < length ?F")
      case True
      with snoc.prems snoc.IH[of i j] F' show ?thesis by (simp add: nth_append)
    next
      case False
      with snoc.prems F' have j: "j = length ?F" by simp
      with snoc.prems have "?F ! i \<in> set ?F" by simp
      then have "?F ! i \<in> set rs" using first_sites_subset by blast
      then have "snd (?F ! i) \<in> set (map snd rs)" by simp
      with \<open>\<not> (\<exists>s\<in>set (map snd rs). eq s (snd r))\<close> have "\<not> eq (snd (?F ! i)) (snd r)" by blast
      with j snoc.prems F' show ?thesis by (simp add: nth_append)
    qed
  qed
qed

lemma first_encounters_snoc:
  "first_encounters eq (sites @ [r]) =
     first_encounters eq sites @
       (if \<exists>s\<in>set (map snd sites). eq s (snd r) then [] else [length sites])"
proof -
  have old: "filter (\<lambda>i. \<forall>j\<in>{0..<i}. \<not> eq (snd ((sites @ [r]) ! j)) (snd ((sites @ [r]) ! i)))
               [0..<length sites] = first_encounters eq sites"
    unfolding first_encounters_def
    by (rule filter_cong) (auto simp: nth_append)
  have new: "(\<forall>j\<in>{0..<length sites}. \<not> eq (snd ((sites @ [r]) ! j)) (snd r)) \<longleftrightarrow>
             \<not> (\<exists>s\<in>set (map snd sites). eq s (snd r))"
  proof
    assume all: "\<forall>j\<in>{0..<length sites}. \<not> eq (snd ((sites @ [r]) ! j)) (snd r)"
    show "\<not> (\<exists>s\<in>set (map snd sites). eq s (snd r))"
    proof
      assume "\<exists>s\<in>set (map snd sites). eq s (snd r)"
      then obtain x where x: "x \<in> set sites" "eq (snd x) (snd r)" by auto
      from x(1) obtain j where j: "j < length sites" "sites ! j = x"
        by (auto simp: in_set_conv_nth)
      from j(1) have "j \<in> {0..<length sites}" by simp
      with all have "\<not> eq (snd ((sites @ [r]) ! j)) (snd r)" by (rule bspec)
      with j x show False by (simp add: nth_append)
    qed
  next
    assume none: "\<not> (\<exists>s\<in>set (map snd sites). eq s (snd r))"
    show "\<forall>j\<in>{0..<length sites}. \<not> eq (snd ((sites @ [r]) ! j)) (snd r)"
    proof
      fix j assume "j \<in> {0..<length sites}"
      then have j: "j < length sites" by simp
      then have "snd (sites ! j) \<in> set (map snd sites)" by simp
      with none have "\<not> eq (snd (sites ! j)) (snd r)" by blast
      with j show "\<not> eq (snd ((sites @ [r]) ! j)) (snd r)" by (simp add: nth_append)
    qed
  qed
  have "first_encounters eq (sites @ [r]) =
        filter (\<lambda>i. \<forall>j\<in>{0..<i}. \<not> eq (snd ((sites @ [r]) ! j)) (snd ((sites @ [r]) ! i)))
          ([0..<length sites] @ [length sites])"
    by (simp add: first_encounters_def)
  also have "\<dots> = first_encounters eq sites @
       (if \<exists>s\<in>set (map snd sites). eq s (snd r) then [] else [length sites])"
    using new by (simp add: old del: upt_Suc)
  finally show ?thesis .
qed

lemma first_encounters_less: "i \<in> set (first_encounters eq sites) \<Longrightarrow> i < length sites"
  by (simp add: first_encounters_def)

lemma first_sites_encounters:
  "first_sites eq [] sites = map ((!) sites) (first_encounters eq sites)"
proof (induction sites rule: rev_induct)
  case Nil
  then show ?case by (simp add: first_encounters_def)
next
  case (snoc r sites)
  have "map ((!) (sites @ [r])) (first_encounters eq sites) = map ((!) sites) (first_encounters eq sites)"
    by (rule map_cong) (auto simp: nth_append dest: first_encounters_less)
  with snoc show ?case
    by (simp add: first_sites_snoc first_encounters_snoc)
qed

lemma class_weight_snoc:
  "class_weight eq (sites @ [r]) f = class_weight eq sites f + (if eq f (snd r) then 1 else 0)"
  by (simp add: class_weight_def)




subsection \<open>Modules in A-normal form\<close>




subsection \<open>The map and the visitor\<close>

lemma map_find_zip_upt:
  "map_find eq (zip ks [n..<n + length ks]) f = Some i \<Longrightarrow>
     n \<le> i \<and> i < n + length ks \<and> eq (ks ! (i - n)) f"
proof (induction ks arbitrary: n)
  case Nil
  then show ?case by simp
next
  case (Cons k ks)
  have upt: "[n..<n + length (k # ks)] = n # [Suc n..<Suc n + length ks]"
    using upt_conv_Cons[of n "n + length (k # ks)"] by simp
  show ?case
  proof (cases "eq k f")
    case True
    with Cons.prems upt show ?thesis by simp
  next
    case False
    with Cons.prems upt have "map_find eq (zip ks [Suc n..<Suc n + length ks]) f = Some i" by simp
    from Cons.IH[OF this] have i: "Suc n \<le> i" "i < Suc n + length ks" "eq (ks ! (i - Suc n)) f"
      by simp_all
    from i(1) have "i - n = Suc (i - Suc n)" by simp
    with i show ?thesis by simp
  qed
qed

lemma map_find_None: "map_find eq kvs f = None \<longleftrightarrow> (\<forall>k\<in>set (map fst kvs). \<not> eq k f)"
  by (induction kvs) (auto split: if_splits)

lemma VisitExpr_CallNode_site:
  assumes "call_site_ref (m_mod ex) call = Some (gv, f)"
  shows "VisitExpr_CallNode eq ex call =
    Inr (case map_find eq (m_func2task ex) f of
           Some it \<Rightarrow> ex\<lparr>store := (store ex)[it := (store ex ! it)\<lparr>weight := weight (store ex ! it) + 1\<rparr>]\<rparr>
         | None \<Rightarrow>
             ex\<lparr>store := store ex @ [\<lparr>task_name = name_hint gv, task_mod = m_parse_mod_func ex f,
                                      target = m_target ex, dispatched = [m_parse_mod_func ex f],
                                      weight = 1\<rparr>],
                m_tasks := m_tasks ex @ [length (store ex)],
                m_func2task := m_func2task ex @ [(f, length (store ex))]\<rparr>)"
  using assms
  by (auto simp: call_site_ref_def VisitExpr_CallNode_def map_emplace_def Let_def
      split: if_splits list.splits Expr.splits option.splits BaseFunc.splits)

lemma VisitExpr_CallNode_no_site:
  assumes "call_ok (m_mod ex) call" "call_site_ref (m_mod ex) call = None"
  shows "VisitExpr_CallNode eq ex call = Inr ex"
  using assms
  by (auto simp: call_site_ref_def call_ok_def VisitExpr_CallNode_def
      split: if_splits list.splits Expr.splits option.splits BaseFunc.splits)

lemma VisitExpr_CallNode_fails:
  assumes "\<not> call_ok (m_mod ex) call"
  shows "\<exists>e. VisitExpr_CallNode eq ex call = Inl e"
  using assms
  by (auto simp: call_ok_def VisitExpr_CallNode_def
      split: if_splits list.splits Expr.splits option.splits BaseFunc.splits)

lemma VisitExpr_CallNode_mod:
  "VisitExpr_CallNode eq ex call = Inr ex' \<Longrightarrow> m_mod ex' = m_mod ex"
  by (auto simp: VisitExpr_CallNode_def Let_def
      split: if_splits list.splits Expr.splits option.splits BaseFunc.splits)

text \<open>
  One visited site takes the expected extractor to the expected extractor: a hit
  increments the weight of the one task of the class, a miss appends a task.
\<close>

lemma abs_state_hit:
  assumes eqv: "symp eq" "transp eq"
    and hit: "map_find eq (m_func2task (abs_state eq pm m t sites)) f = Some it"
  shows "(abs_state eq pm m t sites)\<lparr>store := (store (abs_state eq pm m t sites))
            [it := (store (abs_state eq pm m t sites) ! it)
                    \<lparr>weight := weight (store (abs_state eq pm m t sites) ! it) + 1\<rparr>]\<rparr>
         = abs_state eq pm m t (sites @ [(gv, f)])"
proof -
  let ?F = "first_sites eq [] sites"
  let ?ks = "map snd ?F"
  have tr: "\<And>a b c. eq a b \<Longrightarrow> eq b c \<Longrightarrow> eq a c" using eqv(2) by (rule transpD)
  have sy: "\<And>a b. eq a b \<Longrightarrow> eq b a" using eqv(1) by (rule sympD)
  from hit have "map_find eq (zip ?ks [0..<0 + length ?ks]) f = Some it"
    by (simp add: abs_state_def Let_def)
  from map_find_zip_upt[OF this] have it: "it < length ?F" "eq (snd (?F ! it)) f"
    by auto
  then have "\<exists>r\<in>set ?F. eq (snd r) f" by (metis nth_mem)
  then have "\<exists>s\<in>set ([] @ map snd sites). eq s f"
    using first_sites_covers[OF eqv, of "[]" sites f] by simp
  then have F': "first_sites eq [] (sites @ [(gv, f)]) = ?F"
    by (simp add: first_sites_snoc)
  have others: "\<not> eq (snd (?F ! i)) f" if "i < length ?F" "i \<noteq> it" for i
  proof
    assume "eq (snd (?F ! i)) f"
    with it(2) have e: "eq (snd (?F ! i)) (snd (?F ! it))" "eq (snd (?F ! it)) (snd (?F ! i))"
      using tr sy by blast+
    from that it(1) consider "i < it" | "it < i" by linarith
    then show False
      using first_sites_inequiv[OF eqv, of i it sites] first_sites_inequiv[OF eqv, of it i sites]
        e that it(1) by cases auto
  qed
  have "(map (expected_task eq pm t sites) ?F)
          [it := (map (expected_task eq pm t sites) ?F ! it)
                  \<lparr>weight := weight (map (expected_task eq pm t sites) ?F ! it) + 1\<rparr>]
        = map (expected_task eq pm t (sites @ [(gv, f)])) ?F"
  proof (rule nth_equalityI)
    show "length ((map (expected_task eq pm t sites) ?F)
          [it := (map (expected_task eq pm t sites) ?F ! it)
                  \<lparr>weight := weight (map (expected_task eq pm t sites) ?F ! it) + 1\<rparr>])
        = length (map (expected_task eq pm t (sites @ [(gv, f)])) ?F)" by simp
  next
    fix i
    assume "i < length ((map (expected_task eq pm t sites) ?F)
          [it := (map (expected_task eq pm t sites) ?F ! it)
                  \<lparr>weight := weight (map (expected_task eq pm t sites) ?F ! it) + 1\<rparr>])"
    then have i: "i < length ?F" by simp
    show "(map (expected_task eq pm t sites) ?F)
          [it := (map (expected_task eq pm t sites) ?F ! it)
                  \<lparr>weight := weight (map (expected_task eq pm t sites) ?F ! it) + 1\<rparr>] ! i
        = map (expected_task eq pm t (sites @ [(gv, f)])) ?F ! i"
    proof (cases "i = it")
      case True
      with it show ?thesis
        by (simp add: expected_task_def class_weight_snoc)
    next
      case False
      with i others[of i] show ?thesis
        by (simp add: expected_task_def class_weight_snoc)
    qed
  qed
  with F' show ?thesis
    by (simp add: abs_state_def Let_def)
qed

lemma abs_state_miss:
  assumes eqv: "reflp eq" "symp eq" "transp eq"
    and miss: "map_find eq (m_func2task (abs_state eq pm m t sites)) f = None"
  shows "(abs_state eq pm m t sites)
           \<lparr>store := store (abs_state eq pm m t sites) @
               [\<lparr>task_name = name_hint gv,
                 task_mod = m_parse_mod_func (abs_state eq pm m t sites) f,
                 target = m_target (abs_state eq pm m t sites),
                 dispatched = [m_parse_mod_func (abs_state eq pm m t sites) f],
                 weight = 1\<rparr>],
            m_tasks := m_tasks (abs_state eq pm m t sites) @
               [length (store (abs_state eq pm m t sites))],
            m_func2task := m_func2task (abs_state eq pm m t sites) @
               [(f, length (store (abs_state eq pm m t sites)))]\<rparr>
         = abs_state eq pm m t (sites @ [(gv, f)])"
proof -
  let ?F = "first_sites eq [] sites"
  have sy: "\<And>a b. eq a b \<Longrightarrow> eq b a" using eqv(2) by (rule sympD)
  have rf: "eq f f" using eqv(1) by (rule reflpD)
  from miss have none: "\<forall>r\<in>set ?F. \<not> eq (snd r) f"
    by (simp add: abs_state_def Let_def map_find_None)
  then have no_site: "\<not> (\<exists>s\<in>set ([] @ map snd sites). eq s f)"
    using first_sites_covers[OF eqv(2,3), of "[]" sites f] by simp
  then have F': "first_sites eq [] (sites @ [(gv, f)]) = ?F @ [(gv, f)]"
    by (simp add: first_sites_snoc)
  have old: "map (expected_task eq pm t (sites @ [(gv, f)])) ?F = map (expected_task eq pm t sites) ?F"
    using none by (simp add: expected_task_def class_weight_snoc)
  from no_site have "\<forall>s\<in>set sites. \<not> eq f (snd s)"
    using sy by auto
  then have "filter (\<lambda>s. eq f (snd s)) sites = []"
    by (simp add: filter_empty_conv)
  then have new: "class_weight eq (sites @ [(gv, f)]) f = 1"
    using rf by (simp add: class_weight_def)
  show ?thesis
    using F' old new by (simp add: abs_state_def Let_def expected_task_def)
qed

lemma VisitExpr_CallNode_abs:
  assumes eqv: "reflp eq" "symp eq" "transp eq" and ok: "call_ok m call"
  shows "VisitExpr_CallNode eq (abs_state eq pm m t sites) call =
         Inr (abs_state eq pm m t
               (sites @ (case call_site_ref m call of None \<Rightarrow> [] | Some r \<Rightarrow> [r])))"
proof (cases "call_site_ref m call")
  case None
  have m: "m_mod (abs_state eq pm m t sites) = m" by (simp add: abs_state_def Let_def)
  from None ok m show ?thesis
    by (simp add: VisitExpr_CallNode_no_site)
next
  case (Some r)
  obtain gv f where r: "r = (gv, f)" by (cases r)
  have m: "m_mod (abs_state eq pm m t sites) = m" by (simp add: abs_state_def Let_def)
  from Some r m have site: "call_site_ref (m_mod (abs_state eq pm m t sites)) call = Some (gv, f)"
    by simp
  show ?thesis
  proof (cases "map_find eq (m_func2task (abs_state eq pm m t sites)) f")
    case None
    from abs_state_miss[OF eqv None, of gv] show ?thesis
      unfolding VisitExpr_CallNode_site[OF site] using None Some r by simp
  next
    case (Some it)
    from abs_state_hit[OF eqv(2,3) Some, of gv] show ?thesis
      unfolding VisitExpr_CallNode_site[OF site] using Some \<open>call_site_ref m call = Some r\<close> r by simp
  qed
qed

lemma map_filter_app:
  "List.map_filter f (xs @ ys) = List.map_filter f xs @ List.map_filter f ys"
  by (simp add: List.map_filter_def)

lemma VisitFunction_abs:
  assumes eqv: "reflp eq" "symp eq" "transp eq"
  shows "list_all (call_ok m) calls \<Longrightarrow>
         VisitFunction eq (abs_state eq pm m t sites) calls =
         Inr (abs_state eq pm m t (sites @ List.map_filter (call_site_ref m) calls))"
proof (induction calls arbitrary: sites)
  case Nil
  then show ?case by (simp add: List.map_filter_simps)
next
  case (Cons call calls)
  then have ok: "call_ok m call" and rest: "list_all (call_ok m) calls" by simp_all
  show ?case
    using VisitExpr_CallNode_abs[OF eqv ok, of pm t sites] Cons.IH[OF rest]
    by (simp add: List.map_filter_simps split: option.splits)
qed

lemma VisitModule_abs:
  assumes eqv: "reflp eq" "symp eq" "transp eq"
  shows "list_all (call_ok m) (function_calls kvs) \<Longrightarrow>
         VisitModule eq (abs_state eq pm m t sites) kvs =
         Inr (abs_state eq pm m t (sites @ List.map_filter (call_site_ref m) (function_calls kvs)))"
proof (induction kvs arbitrary: sites)
  case Nil
  then show ?case by (simp add: function_calls_def List.map_filter_simps)
next
  case (Cons kv kvs)
  show ?case
  proof (cases "snd kv")
    case (FunctionNode calls)
    with Cons.prems have ok: "list_all (call_ok m) calls"
      and rest: "list_all (call_ok m) (function_calls kvs)"
      by (simp_all add: function_calls_def)
    have fc: "function_calls (kv # kvs) = calls @ function_calls kvs"
      using FunctionNode by (simp add: function_calls_def)
    show ?thesis
      using VisitFunction_abs[OF eqv ok, of pm t sites] Cons.IH[OF rest] FunctionNode
      by (simp add: fc map_filter_app)
  next
    case (PrimFunc f)
    with Cons.prems have rest: "list_all (call_ok m) (function_calls kvs)"
      by (simp add: function_calls_def)
    have fc: "function_calls (kv # kvs) = function_calls kvs"
      using PrimFunc by (simp add: function_calls_def)
    show ?thesis
      using Cons.IH[OF rest] PrimFunc by (simp add: fc)
  qed
qed

subsection \<open>What the extraction returns\<close>

text \<open>
  On a well-formed module the extraction returns the expected tasks of the first
  sites; on any other module, or when the parse function is not registered, it fails.
\<close>

lemma ExtractTask_eq:
  assumes "equivp eq" "well_formed m"
  shows "ExtractTask eq (Some pm) m t =
         Inr (map (expected_task eq pm t (call_tir_sites m)) (first_sites eq [] (call_tir_sites m)))"
proof -
  from assms(1) have eqv: "reflp eq" "symp eq" "transp eq"
    by (simp_all add: equivp_reflp_symp_transp)
  have init: "abs_state eq pm m t [] = \<lparr>m_mod = m, m_target = t, m_tasks = [], m_func2task = [],
               m_parse_mod_func = pm, store = []\<rparr>"
    by (simp add: abs_state_def)
  from assms(2) have ok: "list_all (call_ok m) (function_calls (functions m))"
    by (simp add: well_formed_def relax_calls_def)
  have sites: "List.map_filter (call_site_ref m) (function_calls (functions m)) = call_tir_sites m"
    by (simp add: call_tir_sites_def relax_calls_def)
  have "VisitModule eq \<lparr>m_mod = m, m_target = t, m_tasks = [], m_func2task = [],
               m_parse_mod_func = pm, store = []\<rparr> (functions m) =
        Inr (abs_state eq pm m t (call_tir_sites m))"
    using VisitModule_abs[OF eqv ok, of pm t "[]"] by (simp add: init sites)
  moreover have "map ((!) (map g F)) [0..<length F] = map g F" for g :: "GlobalVar \<times> 'a \<Rightarrow> ('b, 'c) ExtractedTaskNode" and F
    using map_nth[of "map g F"] by simp
  ultimately show ?thesis
    by (simp add: ExtractTask_def TaskExtractor_new_def abs_state_def Let_def)
qed

lemma VisitFunction_mod:
  "VisitFunction eq ex calls = Inr ex' \<Longrightarrow> m_mod ex' = m_mod ex"
proof (induction calls arbitrary: ex)
  case Nil
  then show ?case by simp
next
  case (Cons call calls)
  then show ?case
    by (auto split: sum.splits dest: VisitExpr_CallNode_mod)
qed

lemma VisitFunction_fails:
  "\<not> list_all (call_ok (m_mod ex)) calls \<Longrightarrow> \<exists>e. VisitFunction eq ex calls = Inl e"
proof (induction calls arbitrary: ex)
  case Nil
  then show ?case by simp
next
  case (Cons call calls)
  show ?case
  proof (cases "VisitExpr_CallNode eq ex call")
    case (Inl e)
    then show ?thesis by simp
  next
    case (Inr ex')
    then have "call_ok (m_mod ex) call"
      using VisitExpr_CallNode_fails[of ex call eq] by auto
    with Cons.prems have "\<not> list_all (call_ok (m_mod ex')) calls"
      using VisitExpr_CallNode_mod[OF Inr] by simp
    from Cons.IH[OF this] Inr show ?thesis by simp
  qed
qed

lemma VisitModule_fails:
  "\<not> list_all (call_ok (m_mod ex)) (function_calls kvs) \<Longrightarrow> \<exists>e. VisitModule eq ex kvs = Inl e"
proof (induction kvs arbitrary: ex)
  case Nil
  then show ?case by (simp add: function_calls_def)
next
  case (Cons kv kvs)
  show ?case
  proof (cases "snd kv")
    case (PrimFunc f)
    with Cons.prems have "\<not> list_all (call_ok (m_mod ex)) (function_calls kvs)"
      by (simp add: function_calls_def)
    from Cons.IH[OF this] PrimFunc show ?thesis by simp
  next
    case (FunctionNode calls)
    show ?thesis
    proof (cases "VisitFunction eq ex calls")
      case (Inl e)
      with FunctionNode show ?thesis by simp
    next
      case (Inr ex')
      then have "list_all (call_ok (m_mod ex)) calls"
        using VisitFunction_fails[of ex calls eq] by auto
      with Cons.prems FunctionNode have "\<not> list_all (call_ok (m_mod ex')) (function_calls kvs)"
        using VisitFunction_mod[OF Inr] by (simp add: function_calls_def)
      from Cons.IH[OF this] Inr FunctionNode show ?thesis by simp
    qed
  qed
qed

lemma ExtractTask_fails:
  "\<not> well_formed m \<Longrightarrow> \<exists>e. ExtractTask eq registry m t = Inl e"
proof (cases registry)
  case None
  then show ?thesis by (simp add: ExtractTask_def TaskExtractor_new_def)
next
  case (Some pm)
  assume "\<not> well_formed m"
  then have "\<not> list_all (call_ok (m_mod \<lparr>m_mod = m, m_target = t, m_tasks = [], m_func2task = [],
              m_parse_mod_func = pm, store = []\<rparr>)) (function_calls (functions m))"
    by (simp add: well_formed_def relax_calls_def)
  from VisitModule_fails[OF this, of eq] Some show ?thesis
    by (auto simp: ExtractTask_def TaskExtractor_new_def)
qed

lemma ExtractTask_unregistered: "ExtractTask eq None m t = Inl ParseModNotFound"
  by (simp add: ExtractTask_def TaskExtractor_new_def)

subsection \<open>The example evaluated\<close>

lemma ex_eq_equivp: "equivp ex_eq"
  by (auto intro!: equivpI reflpI sympI transpI simp: ex_eq_def)

lemma ex_mod_well_formed: "well_formed ex_mod"
  by code_simp

lemma ex_mod_sites: "call_tir_sites ex_mod =
  [(GlobalVar ''fn1'' 1, ''matmul'', 1), (GlobalVar ''fn2'' 2, ''relu'', 2),
   (GlobalVar ''fn3'' 3, ''matmul'', 3), (GlobalVar ''fn3'' 3, ''matmul'', 3)]"
  by code_simp



lemma ex_mod_first: "first_encounters ex_eq (call_tir_sites ex_mod) = [0, 1]"
  by code_simp


















subsection \<open>Calls that are skipped\<close>

text \<open>
  C9. Visiting a call node whose operator is not \<^verbatim>\<open>relax.call_tir\<close>, or whose
  callee (the first argument) is an external function, returns the extractor exactly
  as it was: the store of task nodes (no task created, no weight changed), the task
  array and the function-to-task map are all unchanged.
\<close>

theorem VisitExpr_CallNode_skips:
  assumes "op call \<noteq> call_tir_op \<or> (\<exists>s rest. args call = ExternFuncExpr s # rest)"
  shows "VisitExpr_CallNode eq ex call = Inr ex"
  using assms by (auto simp: VisitExpr_CallNode_def)

theorem VisitExpr_CallNode_skips_witness:
  "VisitExpr_CallNode (=)
     \<lparr>m_mod = \<lparr>functions = [(GlobalVar ''add'' 0, PrimFunc (7::nat))]\<rparr>, m_target = ''llvm'',
      m_tasks = [0], m_func2task = [(7, 0)], m_parse_mod_func = (\<lambda>f. [f]),
      store = [\<lparr>task_name = ''add'', task_mod = [7], target = ''llvm'',
                dispatched = [[7]], weight = 3\<rparr>]\<rparr>
     \<lparr>op = call_tir_op, args = [ExternFuncExpr ''my_extern'', VarExpr ''x'']\<rparr>
   = Inr \<lparr>m_mod = \<lparr>functions = [(GlobalVar ''add'' 0, PrimFunc (7::nat))]\<rparr>, m_target = ''llvm'',
      m_tasks = [0], m_func2task = [(7, 0)], m_parse_mod_func = (\<lambda>f. [f]),
      store = [\<lparr>task_name = ''add'', task_mod = [7], target = ''llvm'',
                dispatched = [[7]], weight = 3\<rparr>]\<rparr>"
  by (rule VisitExpr_CallNode_skips) simp

subsection \<open>One task per class, weighted by its call sites\<close>




subsection \<open>Order and names of the tasks\<close>

text \<open>
  C10. Structural equality is an equivalence, the parse function is registered and the
  module is well formed. Then the returned tasks are, in order, those of the sites at
  which a class of structurally equal \<^verbatim>\<open>PrimFunc\<close>s is first encountered in the
  traversal (the positions \<open>first_encounters\<close>, which increase): the module of each
  task is parsed from the function of that site, and its name is the name hint of the
  global variable of that site.
\<close>

theorem ExtractTask_first_encounter_order:
  assumes "equivp eq" and "well_formed m"
  shows "\<exists>tasks.
      ExtractTask eq (Some pm) m t = Inr tasks \<and>
      sorted_wrt (<) (first_encounters eq (call_tir_sites m)) \<and>
      map task_mod tasks =
        map (\<lambda>i. pm (snd (call_tir_sites m ! i))) (first_encounters eq (call_tir_sites m)) \<and>
      map task_name tasks =
        map (\<lambda>i. name_hint (fst (call_tir_sites m ! i))) (first_encounters eq (call_tir_sites m))"
proof -
  have "sorted_wrt (<) (first_encounters eq (call_tir_sites m))"
    unfolding first_encounters_def by (rule sorted_wrt_filter) simp
  then show ?thesis
    unfolding ExtractTask_eq[OF assms] first_sites_encounters
    by (simp add: expected_task_def comp_def)
qed

theorem ExtractTask_first_encounter_order_witness:
  "equivp ex_eq \<and> well_formed ex_mod \<and>
   first_encounters ex_eq (call_tir_sites ex_mod) = [0, 1] \<and>
   (\<exists>tasks.
      ExtractTask ex_eq (Some (\<lambda>f. [f])) ex_mod ''llvm'' = Inr tasks \<and>
      sorted_wrt (<) (first_encounters ex_eq (call_tir_sites ex_mod)) \<and>
      map task_mod tasks =
        map (\<lambda>i. [snd (call_tir_sites ex_mod ! i)]) (first_encounters ex_eq (call_tir_sites ex_mod)) \<and>
      map task_name tasks =
        map (\<lambda>i. name_hint (fst (call_tir_sites ex_mod ! i)))
          (first_encounters ex_eq (call_tir_sites ex_mod)))"
proof -
  note w = ExtractTask_first_encounter_order[OF ex_eq_equivp ex_mod_well_formed,
      of "\<lambda>f. [f]" "''llvm''"]
  from ex_eq_equivp ex_mod_well_formed ex_mod_first w show ?thesis
    by (intro conjI)
qed

section \<open>The TIR builder interface\<close>

text \<open>
  The embedding of \<^verbatim>\<open>include/tvm/script/ir_builder/tir/ir.h\<close>. The header
  declares the entry points of the builder and defines, by a macro, the family of
  data-type helpers; only the latter have bodies in these sources.
\<close>

subsection \<open>Data types, variables and expressions\<close>

text \<open>
  A \<^verbatim>\<open>DataType\<close> is written as the factory call that makes it:
  \<^verbatim>\<open>DataType::Int(bits, lanes)\<close>, \<^verbatim>\<open>UInt\<close>, \<^verbatim>\<open>Float\<close>,
  \<^verbatim>\<open>Bool()\<close>, \<^verbatim>\<open>Handle()\<close> and \<^verbatim>\<open>Void()\<close>. The factories are
  declared in \<^verbatim>\<open>runtime/data_type.h\<close>, outside these sources; a call that gives
  no lane count, such as \<^verbatim>\<open>DataType::Int(8)\<close>, is recorded with one lane (a
  scalar).
\<close>

datatype DataType =
    DataType_Int nat nat
  | DataType_UInt nat nat
  | DataType_Float nat nat
  | DataType_Bool
  | DataType_Handle
  | DataType_Void

text \<open>
  A TIR variable is an object: \<^verbatim>\<open>tvm::tir::Var(name, dtype)\<close> allocates a new
  one, and two variables of the same name and type are still different variables. The
  third component is the reference of the object.
\<close>

datatype Var = Var (var_name: string) (var_dtype: DataType) (var_ref: nat)

text \<open>
  Primitive expressions. The expression language is defined outside these sources; a
  variable is an expression (\<^verbatim>\<open>Var\<close> derives from \<^verbatim>\<open>PrimExpr\<close>), and
  literals, casts and binary operators stand for the rest.
\<close>

datatype PrimExpr =
    VarRef Var
  | IntImm DataType int
  | Cast DataType PrimExpr
  | BinaryOp string PrimExpr PrimExpr

subsection \<open>The data-type helpers\<close>

text \<open>
  \<^verbatim>\<open>TVM_TIR_IR_BUILDER_DEF_DTYPE_CAST(FuncName, DType)\<close>, lines 392 to 396:
  \<^verbatim>\<open>
  inline PrimExpr FuncName(Optional<PrimExpr> expr = NullOpt) {
    DataType dtype = DType;
    return expr.defined() ? tvm::cast(dtype, expr.value()) : tvm::tir::Var("", dtype);
  }\<close>
  \<^verbatim>\<open>tvm::cast\<close> is defined in \<^verbatim>\<open>tir/op.h\<close>, outside these sources, and is a
  parameter \<open>cast\<close>; it may abort on a fatal check, so its result is an error (of any
  type \<open>'x\<close>) or an expression, and the helper returns what it returns. The
  constructor \<^verbatim>\<open>Var\<close> allocates: the helper takes the reference the next new
  variable will get, \<open>next_ref\<close>, and returns with its result the reference the next
  one will get after the call. The helper takes and returns nothing else; in
  particular the builder context of the next section is not among its arguments.
\<close>

type_synonym 'x dtype_cast =
  "(DataType \<Rightarrow> PrimExpr \<Rightarrow> 'x + PrimExpr) \<Rightarrow> PrimExpr option \<Rightarrow> nat \<Rightarrow> ('x + PrimExpr) \<times> nat"

definition DEF_DTYPE_CAST :: "DataType \<Rightarrow> 'x dtype_cast" where
  "DEF_DTYPE_CAST DType cast expr next_ref =
     (let dtype = DType in
      case expr of
        Some e \<Rightarrow> (cast dtype e, next_ref)
      | None \<Rightarrow> (Inr (VarRef (Var '''' dtype next_ref)), Suc next_ref))"

text \<open>The eighteen instances of the macro, lines 398 to 415, in the order of the header.\<close>

definition Int8 :: "'x dtype_cast" where
  "Int8 = DEF_DTYPE_CAST (DataType_Int 8 1)"

definition Int16 :: "'x dtype_cast" where
  "Int16 = DEF_DTYPE_CAST (DataType_Int 16 1)"

definition Int32 :: "'x dtype_cast" where
  "Int32 = DEF_DTYPE_CAST (DataType_Int 32 1)"

definition Int64 :: "'x dtype_cast" where
  "Int64 = DEF_DTYPE_CAST (DataType_Int 64 1)"

definition UInt8 :: "'x dtype_cast" where
  "UInt8 = DEF_DTYPE_CAST (DataType_UInt 8 1)"

definition UInt16 :: "'x dtype_cast" where
  "UInt16 = DEF_DTYPE_CAST (DataType_UInt 16 1)"

definition UInt32 :: "'x dtype_cast" where
  "UInt32 = DEF_DTYPE_CAST (DataType_UInt 32 1)"

definition UInt64 :: "'x dtype_cast" where
  "UInt64 = DEF_DTYPE_CAST (DataType_UInt 64 1)"

definition Float8 :: "'x dtype_cast" where
  "Float8 = DEF_DTYPE_CAST (DataType_Float 8 1)"

definition Float16 :: "'x dtype_cast" where
  "Float16 = DEF_DTYPE_CAST (DataType_Float 16 1)"

definition Float32 :: "'x dtype_cast" where
  "Float32 = DEF_DTYPE_CAST (DataType_Float 32 1)"

definition Float64 :: "'x dtype_cast" where
  "Float64 = DEF_DTYPE_CAST (DataType_Float 64 1)"

definition Int32x4 :: "'x dtype_cast" where
  "Int32x4 = DEF_DTYPE_CAST (DataType_Int 32 4)"

definition Int32x8 :: "'x dtype_cast" where
  "Int32x8 = DEF_DTYPE_CAST (DataType_Int 32 8)"

definition Int32x16 :: "'x dtype_cast" where
  "Int32x16 = DEF_DTYPE_CAST (DataType_Int 32 16)"

definition Boolean :: "'x dtype_cast" where
  "Boolean = DEF_DTYPE_CAST (DataType_Bool)"

definition Handle :: "'x dtype_cast" where
  "Handle = DEF_DTYPE_CAST (DataType_Handle)"

definition Void :: "'x dtype_cast" where
  "Void = DEF_DTYPE_CAST (DataType_Void)"

lemma DEF_DTYPE_CAST_defined: "DEF_DTYPE_CAST dt cast (Some e) r = (cast dt e, r)"
  by (simp add: DEF_DTYPE_CAST_def)

lemma DEF_DTYPE_CAST_undefined:
  "DEF_DTYPE_CAST dt cast None r = (Inr (VarRef (Var '''' dt r)), Suc r)"
  by (simp add: DEF_DTYPE_CAST_def)

text \<open>
  C8. Each of the eighteen helpers, from \<open>Int8\<close> to \<open>Void\<close>, is a function of its
  arguments alone (the cast, the optional expression and the allocator's next
  reference; no builder context). Given a defined expression \<open>e\<close> it returns the cast
  of \<open>e\<close> to the data type of its macro instance, with that instance's width and lane
  count, and allocates nothing. Given no expression it returns a variable with the
  empty name and that data type, whose reference is the one no earlier variable has,
  and the allocator moves on: the variable of a second such call, of the same or of
  another instance of the macro, is not the variable of the first.
\<close>

theorem dtype_cast_helpers:
  "(Int8 cast (Some e) next_ref = (cast (DataType_Int 8 1) e, next_ref) \<and>
    Int8 cast None next_ref =
      (Inr (VarRef (Var '''' (DataType_Int 8 1) next_ref)), Suc next_ref)) \<and>
   (Int16 cast (Some e) next_ref = (cast (DataType_Int 16 1) e, next_ref) \<and>
    Int16 cast None next_ref =
      (Inr (VarRef (Var '''' (DataType_Int 16 1) next_ref)), Suc next_ref)) \<and>
   (Int32 cast (Some e) next_ref = (cast (DataType_Int 32 1) e, next_ref) \<and>
    Int32 cast None next_ref =
      (Inr (VarRef (Var '''' (DataType_Int 32 1) next_ref)), Suc next_ref)) \<and>
   (Int64 cast (Some e) next_ref = (cast (DataType_Int 64 1) e, next_ref) \<and>
    Int64 cast None next_ref =
      (Inr (VarRef (Var '''' (DataType_Int 64 1) next_ref)), Suc next_ref)) \<and>
   (UInt8 cast (Some e) next_ref = (cast (DataType_UInt 8 1) e, next_ref) \<and>
    UInt8 cast None next_ref =
      (Inr (VarRef (Var '''' (DataType_UInt 8 1) next_ref)), Suc next_ref)) \<and>
   (UInt16 cast (Some e) next_ref = (cast (DataType_UInt 16 1) e, next_ref) \<and>
    UInt16 cast None next_ref =
      (Inr (VarRef (Var '''' (DataType_UInt 16 1) next_ref)), Suc next_ref)) \<and>
   (UInt32 cast (Some e) next_ref = (cast (DataType_UInt 32 1) e, next_ref) \<and>
    UInt32 cast None next_ref =
      (Inr (VarRef (Var '''' (DataType_UInt 32 1) next_ref)), Suc next_ref)) \<and>
   (UInt64 cast (Some e) next_ref = (cast (DataType_UInt 64 1) e, next_ref) \<and>
    UInt64 cast None next_ref =
      (Inr (VarRef (Var '''' (DataType_UInt 64 1) next_ref)), Suc next_ref)) \<and>
   (Float8 cast (Some e) next_ref = (cast (DataType_Float 8 1) e, next_ref) \<and>
    Float8 cast None next_ref =
      (Inr (VarRef (Var '''' (DataType_Float 8 1) next_ref)), Suc next_ref)) \<and>
   (Float16 cast (Some e) next_ref = (cast (DataType_Float 16 1) e, next_ref) \<and>
    Float16 cast None next_ref =
      (Inr (VarRef (Var '''' (DataType_Float 16 1) next_ref)), Suc next_ref)) \<and>
   (Float32 cast (Some e) next_ref = (cast (DataType_Float 32 1) e, next_ref) \<and>
    Float32 cast None next_ref =
      (Inr (VarRef (Var '''' (DataType_Float 32 1) next_ref)), Suc next_ref)) \<and>
   (Float64 cast (Some e) next_ref = (cast (DataType_Float 64 1) e, next_ref) \<and>
    Float64 cast None next_ref =
      (Inr (VarRef (Var '''' (DataType_Float 64 1) next_ref)), Suc next_ref)) \<and>
   (Int32x4 cast (Some e) next_ref = (cast (DataType_Int 32 4) e, next_ref) \<and>
    Int32x4 cast None next_ref =
      (Inr (VarRef (Var '''' (DataType_Int 32 4) next_ref)), Suc next_ref)) \<and>
   (Int32x8 cast (Some e) next_ref = (cast (DataType_Int 32 8) e, next_ref) \<and>
    Int32x8 cast None next_ref =
      (Inr (VarRef (Var '''' (DataType_Int 32 8) next_ref)), Suc next_ref)) \<and>
   (Int32x16 cast (Some e) next_ref = (cast (DataType_Int 32 16) e, next_ref) \<and>
    Int32x16 cast None next_ref =
      (Inr (VarRef (Var '''' (DataType_Int 32 16) next_ref)), Suc next_ref)) \<and>
   (Boolean cast (Some e) next_ref = (cast DataType_Bool e, next_ref) \<and>
    Boolean cast None next_ref =
      (Inr (VarRef (Var '''' DataType_Bool next_ref)), Suc next_ref)) \<and>
   (Handle cast (Some e) next_ref = (cast DataType_Handle e, next_ref) \<and>
    Handle cast None next_ref =
      (Inr (VarRef (Var '''' DataType_Handle next_ref)), Suc next_ref)) \<and>
   (Void cast (Some e) next_ref = (cast DataType_Void e, next_ref) \<and>
    Void cast None next_ref =
      (Inr (VarRef (Var '''' DataType_Void next_ref)), Suc next_ref)) \<and>
   fst (DEF_DTYPE_CAST dt cast None next_ref) \<noteq>
     fst (DEF_DTYPE_CAST dt' cast None (snd (DEF_DTYPE_CAST dt cast None next_ref)))"
  by (simp add: Int8_def Int16_def Int32_def Int64_def UInt8_def UInt16_def UInt32_def
      UInt64_def Float8_def Float16_def Float32_def Float64_def Int32x4_def Int32x8_def
      Int32x16_def Boolean_def Handle_def Void_def
      DEF_DTYPE_CAST_defined DEF_DTYPE_CAST_undefined)

section \<open>The frame stack of the builder\<close>

text \<open>
  The header declares the calls that open frames and write into them; the builder
  context, the frame classes and the bodies of these calls (\<^verbatim>\<open>base.h\<close>,
  \<^verbatim>\<open>frame.h\<close> and the implementation files) are not part of the sources. This
  section models them from the specification: the builder context (sections 3 and 4.1),
  the frame stack and its exit protocol (section 4.2), the frame catalogue (section
  4.3), the three block settings and the statement calls (section 4.4) and the error
  taxonomy (section 7). The calls that are not needed for the stack discipline (the
  axis declarations, the function settings, \<^verbatim>\<open>Grid\<close>, \<^verbatim>\<open>Then\<close> and
  \<^verbatim>\<open>Else\<close>) are not modelled.
\<close>

subsection \<open>Errors and the data of frames\<close>

text \<open>
  Modelled from the spec: the error taxonomy of the builder, whose checks are in the
  missing implementation. Section 7 names five classes: scope-mismatch,
  duplicate-setting, pairing-violation, argument-shape and unclosed-scope.
\<close>

datatype builder_error =
  ScopeMismatch | DuplicateSetting | PairingViolation | ArgumentShape | UnclosedScope

text \<open>
  Modelled from the spec: a range (section 3: "domain range"; the class is declared
  outside the sources), as a minimum and an extent.
\<close>

datatype Range = Range (range_min: PrimExpr) (range_extent: PrimExpr)

text \<open>
  Modelled from the spec: the buffer declaration of section 3 (the class is declared
  outside the sources), with the fields listed there.
\<close>

record Buffer =
  buffer_name :: string
  shape :: "PrimExpr list"
  buffer_dtype :: DataType
  data :: "Var option"
  strides :: "PrimExpr list option"
  elem_offset :: PrimExpr
  storage_scope :: string
  align :: int
  offset_factor :: int
  buffer_type :: string
  axis_separators :: "int list option"

text \<open>
  Modelled from the spec: a buffer region, the unit of the read and write regions of a
  block (section 3; declared outside the sources): a buffer and a range per axis.
\<close>

type_synonym BufferRegion = "Buffer \<times> Range list"

text \<open>
  Modelled from the spec: an annotation map (section 3: "an annotation map"; the map
  type is declared outside the sources), as a list of keys and values.
\<close>

type_synonym Annotations = "(string \<times> PrimExpr) list"

text \<open>
  Modelled from the spec: the kind tag of an iteration variable (section 3), one of
  spatial, reduce, scan and opaque; it is declared outside the sources.
\<close>

datatype AxisKind = kSpatial | kReduce | kScan | kOpaque

text \<open>
  Modelled from the spec: an iteration variable binding (section 3; the class is
  declared outside the sources), "a triple of (domain range, binding expression, kind
  tag)".
\<close>

type_synonym IterVar = "Range \<times> PrimExpr \<times> AxisKind"

text \<open>
  Modelled from the spec: the kind of a loop frame (section 4.3; the frame classes are
  in \<^verbatim>\<open>frame.h\<close>, which is missing): serial, parallel, vectorized, unroll or
  thread-binding, the last with its thread tag.
\<close>

datatype ForKind = kSerial | kParallel | kVectorized | kUnroll | kThreadBinding string

text \<open>
  Modelled from the spec: the fields of the block frame of the missing
  \<^verbatim>\<open>frame.h\<close>. Sections 3 and 4.3: the name and the realize flag it is opened
  with, the read regions, the write regions and the predicate, each unset until its
  call, the annotations and the iteration variables bound while it was open.
\<close>

record BlockFields =
  name :: string
  no_realize :: bool
  reads :: "BufferRegion list option"
  writes :: "BufferRegion list option"
  predicate :: "PrimExpr option"
  annotations :: "Annotations option"
  iter_vars :: "IterVar list"

text \<open>
  Modelled from the spec: the frame catalogue of section 4.3 (the frame classes are in
  the missing \<^verbatim>\<open>frame.h\<close>), one case per kind with what the kind accumulates
  besides its body: the function frame its parameters, buffer map, attributes and
  return type; the loop frame its variable, bounds, kind and annotations; the
  conditional its condition; and so on down the table.
\<close>

datatype FrameKind =
    PrimFuncFrame "Var list" "(Var \<times> Buffer) list" "Annotations option" "DataType option"
  | BlockFrame BlockFields
  | BlockInitFrame
  | ForFrame Var PrimExpr PrimExpr ForKind Annotations
  | IfFrame PrimExpr
  | ThenFrame
  | ElseFrame
  | WhileFrame PrimExpr
  | LetFrame Var PrimExpr
  | AllocateFrame "PrimExpr list" DataType string "PrimExpr option" Annotations
  | AllocateConstFrame "int list" DataType "PrimExpr list" Annotations
  | AttrFrame PrimExpr string PrimExpr
  | AssertFrame PrimExpr string
  | LaunchThreadFrame Var PrimExpr
  | RealizeFrame BufferRegion string PrimExpr

text \<open>
  Modelled from the spec: a frame (section 3) has a kind with its accumulated fields
  and a body list of already assembled children. The assembled nodes are outside the
  core (section 1), so their type is a parameter \<open>'n\<close>. \<open>frame_id\<close> identifies
  the frame instance: it is what the scope handle returned at opening refers to.
\<close>

record 'n Frame =
  frame_id :: nat
  kind :: FrameKind
  body :: "'n list"

text \<open>
  Modelled from the spec: the builder context of \<^verbatim>\<open>base.h\<close>, which is missing. It
  owns the frame stack (section 3), listed here with the current (topmost) frame
  first. \<open>result\<close> holds the node of a closed outermost frame, which section 4.2
  returns to the caller that opened the context. \<open>next_id\<close> numbers the frames.
\<close>

record 'n IRBuilder =
  frames :: "'n Frame list"
  result :: "'n option"
  next_id :: nat

subsection \<open>The context and the stack\<close>

text \<open>
  Modelled from the spec: \<^verbatim>\<open>Enter()\<close> of the missing builder context. Section
  4.1: it "establishes a new context as current and pushes no frames".
\<close>

definition Enter :: "'n IRBuilder" where
  "Enter = \<lparr>frames = [], result = None, next_id = 0\<rparr>"

text \<open>
  Modelled from the spec: \<^verbatim>\<open>Exit()\<close> of the missing builder context. Section 4.1:
  it "asserts the frame stack is empty at that point - a non-empty stack at exit is a
  fatal consistency error (unclosed scope)". The caller gets the result.
\<close>

definition Exit :: "'n IRBuilder \<Rightarrow> builder_error + 'n option" where
  "Exit b = (if frames b = [] then Inr (result b) else Inl UnclosedScope)"

text \<open>
  Modelled from the spec: \<^verbatim>\<open>Push(frame)\<close> of the missing frame stack. Section
  4.2: it "appends to the stack, makes it current". The new frame has an empty body.
\<close>

definition Push :: "FrameKind \<Rightarrow> 'n IRBuilder \<Rightarrow> 'n IRBuilder" where
  "Push k b =
     b\<lparr>frames := \<lparr>frame_id = next_id b, kind = k, body = []\<rparr> # frames b,
       next_id := Suc (next_id b)\<rparr>"

text \<open>
  Modelled from the spec: \<^verbatim>\<open>Pop()\<close> of the missing frame stack, with the exit
  protocol that runs inside it. Section 4.2: it "must be called on the current
  (topmost) frame only; out-of-order close (closing a non-topmost frame) is a fatal
  error", a scope-mismatch in the taxonomy of section 7; \<open>h\<close> is the frame the
  closed handle refers to. Then "the frame's kind-specific assembly rule consumes its
  accumulated fields and body list to build one immutable IR node; that node is
  appended, in call order, to the new topmost frame's body list (or, if the closed
  frame was outermost, returned to the caller that opened the builder context)". The
  assembly rules of section 4.3, with their close-time validation, build nodes of the
  types that section 1 places outside the core: they are the parameter \<open>assemble\<close>,
  which gives the node or the error of the failed validation.
\<close>

definition Pop ::
  "('n Frame \<Rightarrow> builder_error + 'n) \<Rightarrow> nat \<Rightarrow> 'n IRBuilder \<Rightarrow> builder_error + 'n IRBuilder" where
  "Pop assemble h b =
     (case frames b of
        [] \<Rightarrow> Inl ScopeMismatch
      | f # rest \<Rightarrow>
          if frame_id f \<noteq> h then Inl ScopeMismatch
          else (case assemble f of
                  Inl e \<Rightarrow> Inl e
                | Inr node \<Rightarrow>
                    (case rest of
                       [] \<Rightarrow> Inr (b\<lparr>frames := [], result := Some node\<rparr>)
                     | p # ps \<Rightarrow> Inr (b\<lparr>frames := p\<lparr>body := body p @ [node]\<rparr> # ps\<rparr>))))"

text \<open>
  Modelled from the spec: \<^verbatim>\<open>CurrentOfKind(K)\<close> of the missing frame stack. Section
  4.2: it "returns the nearest frame on the stack ... whose kind is K, or fails with a
  no enclosing scope of kind K error if none exists".
\<close>

fun CurrentOfKind :: "(FrameKind \<Rightarrow> bool) \<Rightarrow> 'n Frame list \<Rightarrow> builder_error + 'n Frame" where
  "CurrentOfKind K [] = Inl ScopeMismatch"
| "CurrentOfKind K (f # fs) = (if K (kind f) then Inr f else CurrentOfKind K fs)"

subsection \<open>Calls that write into the current frame\<close>

text \<open>
  Modelled from the spec: the lookup that the block settings, whose bodies are
  missing, share. Section 4.4: each call "requires a specific ancestor frame kind to
  be current (topmost) and fails with a scope error otherwise".
\<close>

definition CurrentBlock :: "'n IRBuilder \<Rightarrow> builder_error + BlockFields" where
  "CurrentBlock b =
     (case frames b of
        [] \<Rightarrow> Inl ScopeMismatch
      | f # _ \<Rightarrow> (case kind f of BlockFrame bf \<Rightarrow> Inr bf | _ \<Rightarrow> Inl ScopeMismatch))"

text \<open>
  Modelled from the spec: the write that the block settings, whose bodies are missing,
  share: the changed fields are stored in the current frame (section 3: "all mutating
  leaf calls target that frame").
\<close>

definition SetBlock :: "BlockFields \<Rightarrow> 'n IRBuilder \<Rightarrow> 'n IRBuilder" where
  "SetBlock bf b =
     (case frames b of
        [] \<Rightarrow> b
      | f # fs \<Rightarrow> b\<lparr>frames := f\<lparr>kind := BlockFrame bf\<rparr> # fs\<rparr>)"

text \<open>
  Modelled from the spec: \<^verbatim>\<open>Where(predicate)\<close>, line 78 of the header, whose body
  is missing. Sections 4.4 and 7: the predicate is a single-use field; setting it a
  second time on the same frame is a duplicate-setting error.
\<close>

definition Where :: "PrimExpr \<Rightarrow> 'n IRBuilder \<Rightarrow> builder_error + 'n IRBuilder" where
  "Where p b =
     (case CurrentBlock b of
        Inl e \<Rightarrow> Inl e
      | Inr bf \<Rightarrow>
          if predicate bf \<noteq> None then Inl DuplicateSetting
          else Inr (SetBlock (bf\<lparr>predicate := Some p\<rparr>) b))"

text \<open>
  Modelled from the spec: \<^verbatim>\<open>Reads(buffer_slices)\<close>, line 83 of the header, whose
  body is missing; as \<open>Where\<close>, on the read regions.
\<close>

definition Reads :: "BufferRegion list \<Rightarrow> 'n IRBuilder \<Rightarrow> builder_error + 'n IRBuilder" where
  "Reads buffer_slices b =
     (case CurrentBlock b of
        Inl e \<Rightarrow> Inl e
      | Inr bf \<Rightarrow>
          if reads bf \<noteq> None then Inl DuplicateSetting
          else Inr (SetBlock (bf\<lparr>reads := Some buffer_slices\<rparr>) b))"

text \<open>
  Modelled from the spec: \<^verbatim>\<open>Writes(buffer_slices)\<close>, line 88 of the header, whose
  body is missing; as \<open>Where\<close>, on the write regions.
\<close>

definition Writes :: "BufferRegion list \<Rightarrow> 'n IRBuilder \<Rightarrow> builder_error + 'n IRBuilder" where
  "Writes buffer_slices b =
     (case CurrentBlock b of
        Inl e \<Rightarrow> Inl e
      | Inr bf \<Rightarrow>
          if writes bf \<noteq> None then Inl DuplicateSetting
          else Inr (SetBlock (bf\<lparr>writes := Some buffer_slices\<rparr>) b))"

text \<open>
  Modelled from the spec: the statement calls \<^verbatim>\<open>BufferStore\<close>, \<^verbatim>\<open>Prefetch\<close>
  and \<^verbatim>\<open>Evaluate\<close>, whose bodies are missing. Section 4.4: they "do not open
  frames but do extend the body list in call order". \<open>stmt\<close> is the statement node
  the call has built.
\<close>

definition AddStmt :: "'n \<Rightarrow> 'n IRBuilder \<Rightarrow> builder_error + 'n IRBuilder" where
  "AddStmt stmt b =
     (case frames b of
        [] \<Rightarrow> Inl ScopeMismatch
      | f # fs \<Rightarrow> Inr (b\<lparr>frames := f\<lparr>body := body f @ [stmt]\<rparr> # fs\<rparr>))"

subsection \<open>Sessions\<close>

text \<open>
  Modelled from the spec: the calls of a host call sequence (section 2: it "opens
  frames top-down ..., issues mutating leaf calls against the innermost matching
  frame, ... and closes frames bottom-up"; the host is not part of the sources): a
  push of a frame of some kind, a pop of the frame a handle refers to, one of the three
  block settings, or a statement call.
\<close>

datatype 'n event =
    EPush FrameKind
  | EPop nat
  | EWhere PrimExpr
  | EReads "BufferRegion list"
  | EWrites "BufferRegion list"
  | EStmt 'n

text \<open>
  Modelled from the spec: one call of the host sequence applied to the builder
  context, which is missing from the sources.
\<close>

fun step ::
  "('n Frame \<Rightarrow> builder_error + 'n) \<Rightarrow> 'n event \<Rightarrow> 'n IRBuilder \<Rightarrow> builder_error + 'n IRBuilder" where
  "step assemble (EPush k) b = Inr (Push k b)"
| "step assemble (EPop h) b = Pop assemble h b"
| "step assemble (EWhere p) b = Where p b"
| "step assemble (EReads rs) b = Reads rs b"
| "step assemble (EWrites ws) b = Writes ws b"
| "step assemble (EStmt s) b = AddStmt s b"

text \<open>
  Modelled from the spec: a host call sequence run from first to last on the missing
  builder context; section 7: the engine "fails immediately at the offending call".
\<close>

fun run ::
  "('n Frame \<Rightarrow> builder_error + 'n) \<Rightarrow> 'n event list \<Rightarrow> 'n IRBuilder \<Rightarrow> builder_error + 'n IRBuilder" where
  "run assemble [] b = Inr b"
| "run assemble (ev # evs) b =
     (case step assemble ev b of Inl e \<Rightarrow> Inl e | Inr b' \<Rightarrow> run assemble evs b')"

text \<open>
  Modelled from the spec: the number of \<^verbatim>\<open>Push\<close> operations of a call sequence
  on the missing frame stack (section 8).
\<close>

fun pushes :: "'n event list \<Rightarrow> nat" where
  "pushes [] = 0"
| "pushes (EPush k # evs) = Suc (pushes evs)"
| "pushes (_ # evs) = pushes evs"

text \<open>
  Modelled from the spec: the number of \<^verbatim>\<open>Pop\<close> operations of a call sequence
  on the missing frame stack (section 8).
\<close>

fun pops :: "'n event list \<Rightarrow> nat" where
  "pops [] = 0"
| "pops (EPop h # evs) = Suc (pops evs)"
| "pops (_ # evs) = pops evs"

subsection \<open>What the theorems speak about\<close>

text \<open>
  The definitions of this subsection are used to state and prove the properties; they
  are not part of the builder.

  \<open>ids_ok\<close>: the frames of the stack have different identities, all below the next
  one to be given. \<open>ids_sorted\<close>: a frame is younger than the frames below it.
  \<open>is_block\<close> recognises the block kind. \<open>keeps_settings\<close>: the settings made
  on a block are still there.
\<close>

definition ids_ok :: "'n IRBuilder \<Rightarrow> bool" where
  "ids_ok b \<longleftrightarrow> distinct (map frame_id (frames b)) \<and> (\<forall>f\<in>set (frames b). frame_id f < next_id b)"

definition ids_sorted :: "'n IRBuilder \<Rightarrow> bool" where
  "ids_sorted b \<longleftrightarrow> sorted_wrt (>) (map frame_id (frames b))"

definition is_block :: "FrameKind \<Rightarrow> bool" where
  "is_block k = (case k of BlockFrame _ \<Rightarrow> True | _ \<Rightarrow> False)"

definition keeps_settings :: "BlockFields \<Rightarrow> BlockFields \<Rightarrow> bool" where
  "keeps_settings bf bf' \<longleftrightarrow>
     (reads bf \<noteq> None \<longrightarrow> reads bf' = reads bf) \<and>
     (writes bf \<noteq> None \<longrightarrow> writes bf' = writes bf) \<and>
     (predicate bf \<noteq> None \<longrightarrow> predicate bf' = predicate bf)"

text \<open>
  \<open>handed_by\<close> lists what an event hands to a frame: a close hands the node of the
  closed frame to the frame below it, a statement call hands its node to the current
  frame. \<open>handed\<close> is the log of a whole sequence, in the order of its events, and
  \<open>handed_to i\<close> selects from a log the nodes handed to the frame \<open>i\<close>.
  \<open>body_of b i\<close> is the body of the frame \<open>i\<close> of the stack.
\<close>

fun handed_by ::
  "('n Frame \<Rightarrow> builder_error + 'n) \<Rightarrow> 'n event \<Rightarrow> 'n IRBuilder \<Rightarrow> (nat \<times> 'n) list" where
  "handed_by assemble (EPop h) b =
     (case frames b of
        f # p # _ \<Rightarrow> (case assemble f of Inr n \<Rightarrow> [(frame_id p, n)] | Inl _ \<Rightarrow> [])
      | _ \<Rightarrow> [])"
| "handed_by assemble (EStmt s) b =
     (case frames b of f # _ \<Rightarrow> [(frame_id f, s)] | [] \<Rightarrow> [])"
| "handed_by assemble _ b = []"

fun handed ::
  "('n Frame \<Rightarrow> builder_error + 'n) \<Rightarrow> 'n event list \<Rightarrow> 'n IRBuilder \<Rightarrow> (nat \<times> 'n) list" where
  "handed assemble [] b = []"
| "handed assemble (ev # evs) b =
     (case step assemble ev b of
        Inl _ \<Rightarrow> []
      | Inr b' \<Rightarrow> handed_by assemble ev b @ handed assemble evs b')"

definition handed_to :: "nat \<Rightarrow> (nat \<times> 'n) list \<Rightarrow> 'n list" where
  "handed_to i log = map snd (filter (\<lambda>e. fst e = i) log)"

definition body_of :: "'n IRBuilder \<Rightarrow> nat \<Rightarrow> 'n list" where
  "body_of b i = (case find (\<lambda>f. frame_id f = i) (frames b) of None \<Rightarrow> [] | Some f \<Rightarrow> body f)"

text \<open>
  An assembly rule and some values for examples: the node of a frame records its kind
  with its fields and its children.
\<close>

datatype Node = Node FrameKind "Node list" | Leaf string

definition assemble_example :: "Node Frame \<Rightarrow> builder_error + Node" where
  "assemble_example f = Inr (Node (kind f) (body f))"

definition ex_block :: BlockFields where
  "ex_block = \<lparr>name = ''update'', no_realize = False, reads = None, writes = None,
                predicate = None, annotations = None, iter_vars = []\<rparr>"

definition ex_cond :: PrimExpr where
  "ex_cond = BinaryOp ''<'' (VarRef (Var ''i'' (DataType_Int 32 1) 0)) (IntImm (DataType_Int 32 1) 16)"

definition ex_loop :: FrameKind where
  "ex_loop = ForFrame (Var ''i'' (DataType_Int 32 1) 0) (IntImm (DataType_Int 32 1) 0)
               (IntImm (DataType_Int 32 1) 16) kSerial []"

definition ex_session :: "Node event list" where
  "ex_session =
     [EPush (PrimFuncFrame [] [] None None), EPush ex_loop, EPush (BlockFrame ex_block),
      EReads [], EStmt (Leaf ''store''), EPop 2, EPop 1, EPop 0]"

definition ex_open :: "Node IRBuilder" where
  "ex_open =
     \<lparr>frames = [\<lparr>frame_id = 1, kind = WhileFrame ex_cond, body = [Leaf ''s'']\<rparr>,
                \<lparr>frame_id = 0, kind = BlockFrame ex_block, body = [Leaf ''a'']\<rparr>],
      result = None, next_id = 2\<rparr>"

definition ex_block_open :: "Node IRBuilder" where
  "ex_block_open = Push (BlockFrame ex_block) (Push (PrimFuncFrame [] [] None None) Enter)"

definition ex_opened :: "Node IRBuilder" where
  "ex_opened = Push (BlockFrame ex_block) (Push ex_loop (Push (PrimFuncFrame [] [] None None) Enter))"

definition ex_closed :: "Node IRBuilder" where
  "ex_closed =
     \<lparr>frames = [],
      result = Some (Node (PrimFuncFrame [] [] None None)
                 [Node ex_loop [Node (BlockFrame (ex_block\<lparr>reads := Some []\<rparr>)) [Leaf ''store'']]]),
      next_id = 3\<rparr>"

definition ex_open_closed :: "Node IRBuilder" where
  "ex_open_closed =
     \<lparr>frames = [\<lparr>frame_id = 0, kind = BlockFrame ex_block,
                 body = [Leaf ''a'', Node (WhileFrame ex_cond) [Leaf ''s'']]\<rparr>],
      result = None, next_id = 2\<rparr>"

definition ex_nested :: "Node event list" where
  "ex_nested =
     [EPush (PrimFuncFrame [] [] None None), EStmt (Leaf ''x''), EPush ex_loop,
      EStmt (Leaf ''inner''), EPop 1, EStmt (Leaf ''y'')]"

definition ex_nested_end :: "Node IRBuilder" where
  "ex_nested_end =
     \<lparr>frames = [\<lparr>frame_id = 0, kind = PrimFuncFrame [] [] None None,
                 body = [Leaf ''x'', Node ex_loop [Leaf ''inner''], Leaf ''y'']\<rparr>],
      result = None, next_id = 2\<rparr>"

subsection \<open>Successful events\<close>

lemma Pop_Inr:
  assumes "Pop assemble h b = Inr b'"
  obtains f n where "frames b = [f]" "frame_id f = h" "assemble f = Inr n"
      "b' = b\<lparr>frames := [], result := Some n\<rparr>"
  | f p ps n where "frames b = f # p # ps" "frame_id f = h" "assemble f = Inr n"
      "b' = b\<lparr>frames := p\<lparr>body := body p @ [n]\<rparr> # ps\<rparr>"
  using assms
  by (auto simp: Pop_def split: list.splits if_splits sum.splits)

lemma CurrentBlock_Inr:
  "CurrentBlock b = Inr bf \<longleftrightarrow> (\<exists>f fs. frames b = f # fs \<and> kind f = BlockFrame bf)"
  by (auto simp: CurrentBlock_def split: list.splits FrameKind.splits)

lemma Where_Inr:
  assumes "Where p b = Inr b'"
  obtains f fs bf where "frames b = f # fs" "kind f = BlockFrame bf" "predicate bf = None"
    "b' = b\<lparr>frames := f\<lparr>kind := BlockFrame (bf\<lparr>predicate := Some p\<rparr>)\<rparr> # fs\<rparr>"
  using assms
  by (auto simp: Where_def SetBlock_def CurrentBlock_Inr split: sum.splits if_splits)

lemma Reads_Inr:
  assumes "Reads r b = Inr b'"
  obtains f fs bf where "frames b = f # fs" "kind f = BlockFrame bf" "reads bf = None"
    "b' = b\<lparr>frames := f\<lparr>kind := BlockFrame (bf\<lparr>reads := Some r\<rparr>)\<rparr> # fs\<rparr>"
  using assms
  by (auto simp: Reads_def SetBlock_def CurrentBlock_Inr split: sum.splits if_splits)

lemma Writes_Inr:
  assumes "Writes w b = Inr b'"
  obtains f fs bf where "frames b = f # fs" "kind f = BlockFrame bf" "writes bf = None"
    "b' = b\<lparr>frames := f\<lparr>kind := BlockFrame (bf\<lparr>writes := Some w\<rparr>)\<rparr> # fs\<rparr>"
  using assms
  by (auto simp: Writes_def SetBlock_def CurrentBlock_Inr split: sum.splits if_splits)

lemma AddStmt_Inr:
  assumes "AddStmt s b = Inr b'"
  obtains f fs where "frames b = f # fs" "b' = b\<lparr>frames := f\<lparr>body := body f @ [s]\<rparr> # fs\<rparr>"
  using assms
  by (auto simp: AddStmt_def split: list.splits)

text \<open>
  A successful event is one of five: it pushes a frame, pops the outermost frame,
  pops an inner frame, changes a setting of the current block, or adds a statement to
  the current frame.
\<close>

lemma step_cases:
  assumes "step assemble ev b = Inr b'"
  obtains
    (push) k where "ev = EPush k" "b' = Push k b"
  | (pop_outermost) h f n where "ev = EPop h" "frames b = [f]" "frame_id f = h" "assemble f = Inr n"
      "b' = b\<lparr>frames := [], result := Some n\<rparr>"
  | (pop_inner) h f p ps n where "ev = EPop h" "frames b = f # p # ps" "frame_id f = h"
      "assemble f = Inr n" "b' = b\<lparr>frames := p\<lparr>body := body p @ [n]\<rparr> # ps\<rparr>"
  | (setting) f fs bf bf' where "(\<exists>p. ev = EWhere p) \<or> (\<exists>r. ev = EReads r) \<or> (\<exists>w. ev = EWrites w)"
      "frames b = f # fs" "kind f = BlockFrame bf"
      "b' = b\<lparr>frames := f\<lparr>kind := BlockFrame bf'\<rparr> # fs\<rparr>"
      "reads bf \<noteq> None \<longrightarrow> reads bf' = reads bf"
      "writes bf \<noteq> None \<longrightarrow> writes bf' = writes bf"
      "predicate bf \<noteq> None \<longrightarrow> predicate bf' = predicate bf"
  | (stmt) s f fs where "ev = EStmt s" "frames b = f # fs"
      "b' = b\<lparr>frames := f\<lparr>body := body f @ [s]\<rparr> # fs\<rparr>"
proof (cases ev)
  case (EPush k)
  with assms push show ?thesis by simp
next
  case (EPop h)
  with assms have "Pop assemble h b = Inr b'" by simp
  then show ?thesis
    using EPop pop_outermost pop_inner by (elim Pop_Inr) blast+
next
  case (EWhere p)
  with assms have "Where p b = Inr b'" by simp
  then show ?thesis
    using EWhere by (elim Where_Inr) (rule setting, auto)
next
  case (EReads r)
  with assms have "Reads r b = Inr b'" by simp
  then show ?thesis
    using EReads by (elim Reads_Inr) (rule setting, auto)
next
  case (EWrites w)
  with assms have "Writes w b = Inr b'" by simp
  then show ?thesis
    using EWrites by (elim Writes_Inr) (rule setting, auto)
next
  case (EStmt s)
  with assms have "AddStmt s b = Inr b'" by simp
  then show ?thesis
    using EStmt stmt by (elim AddStmt_Inr) blast
qed

lemma run_append:
  "run assemble (xs @ ys) b =
     (case run assemble xs b of Inl e \<Rightarrow> Inl e | Inr b' \<Rightarrow> run assemble ys b')"
  by (induction xs arbitrary: b) (auto split: sum.splits)

subsection \<open>Frame identities\<close>

lemma ids_ok_Enter: "ids_ok Enter"
  by (simp add: ids_ok_def Enter_def)

lemma step_ids_ok:
  assumes "ids_ok b" "step assemble ev b = Inr b'"
  shows "ids_ok b'"
  using assms(2)
proof (cases rule: step_cases)
  case (push k)
  with assms(1) show ?thesis by (auto simp: ids_ok_def Push_def)
next
  case (pop_outermost h f n)
  with assms(1) show ?thesis by (simp add: ids_ok_def)
next
  case (pop_inner h f p ps n)
  with assms(1) show ?thesis by (simp add: ids_ok_def)
next
  case (setting f fs bf bf')
  with assms(1) show ?thesis by (simp add: ids_ok_def)
next
  case (stmt s f fs)
  with assms(1) show ?thesis by (simp add: ids_ok_def)
qed

lemma run_ids_ok: "ids_ok b \<Longrightarrow> run assemble evs b = Inr b' \<Longrightarrow> ids_ok b'"
proof (induction evs arbitrary: b)
  case Nil
  then show ?case by simp
next
  case (Cons ev evs)
  then show ?case
    by (auto split: sum.splits dest: step_ids_ok)
qed

lemma step_next_id:
  assumes "step assemble ev b = Inr b'"
  shows "next_id b \<le> next_id b'"
  using assms by (cases rule: step_cases) (simp_all add: Push_def)

lemma step_ids:
  assumes "step assemble ev b = Inr b'" "i \<in> frame_id ` set (frames b')"
  shows "i \<in> frame_id ` set (frames b) \<or> next_id b \<le> i"
  using assms by (cases rule: step_cases) (auto simp: Push_def)

lemma run_ids:
  "ids_ok b \<Longrightarrow> run assemble evs b = Inr b' \<Longrightarrow> i \<in> frame_id ` set (frames b') \<Longrightarrow>
     i \<in> frame_id ` set (frames b) \<or> next_id b \<le> i"
proof (induction evs arbitrary: b)
  case Nil
  then show ?case by simp
next
  case (Cons ev evs)
  from Cons.prems obtain b1 where b1: "step assemble ev b = Inr b1" "run assemble evs b1 = Inr b'"
    by (auto split: sum.splits)
  from step_ids_ok[OF Cons.prems(1) b1(1)] have "ids_ok b1" .
  from Cons.IH[OF this b1(2) Cons.prems(3)]
  have "i \<in> frame_id ` set (frames b1) \<or> next_id b1 \<le> i" .
  then show ?case
    using step_ids[OF b1(1), of i] step_next_id[OF b1(1)] by auto
qed

lemma same_id_same_frame:
  assumes "distinct (map frame_id fs)" "f \<in> set fs" "g \<in> set fs" "frame_id f = frame_id g"
  shows "f = g"
proof -
  from assms(1) have "inj_on frame_id (set fs)" by (simp add: distinct_map)
  from inj_onD[OF this assms(4) assms(2) assms(3)] show ?thesis .
qed

lemma step_ids_sorted:
  assumes "ids_ok b" "ids_sorted b" "step assemble ev b = Inr b'"
  shows "ids_sorted b'"
  using assms(3)
proof (cases rule: step_cases)
  case (push k)
  with assms(1,2) show ?thesis by (auto simp: ids_sorted_def ids_ok_def Push_def)
next
  case (pop_outermost h f n)
  then show ?thesis by (simp add: ids_sorted_def)
next
  case (pop_inner h f p ps n)
  with assms(2) show ?thesis by (simp add: ids_sorted_def)
next
  case (setting f fs bf bf')
  with assms(2) show ?thesis by (simp add: ids_sorted_def)
next
  case (stmt s f fs)
  with assms(2) show ?thesis by (simp add: ids_sorted_def)
qed

lemma run_ids_sorted:
  "ids_ok b \<Longrightarrow> ids_sorted b \<Longrightarrow> run assemble evs b = Inr b' \<Longrightarrow> ids_sorted b'"
proof (induction evs arbitrary: b)
  case Nil
  then show ?case by simp
next
  case (Cons ev evs)
  from Cons.prems(3) obtain b1 where b1: "step assemble ev b = Inr b1" "run assemble evs b1 = Inr b'"
    by (auto split: sum.splits)
  from Cons.IH[OF step_ids_ok[OF Cons.prems(1) b1(1)] step_ids_sorted[OF Cons.prems(1,2) b1(1)] b1(2)]
  show ?case .
qed

subsection \<open>The depth of the stack\<close>

lemma step_depth:
  assumes "step assemble ev b = Inr b'"
  shows "length (frames b') + pops [ev] = length (frames b) + pushes [ev]"
  using assms
proof (cases rule: step_cases)
  case (push k)
  then show ?thesis by (simp add: Push_def)
next
  case (pop_outermost h f n)
  then show ?thesis by simp
next
  case (pop_inner h f p ps n)
  then show ?thesis by simp
next
  case (setting f fs bf bf')
  then show ?thesis by auto
next
  case (stmt s f fs)
  then show ?thesis by simp
qed

lemma pushes_Cons: "pushes (ev # evs) = pushes [ev] + pushes evs"
  by (cases ev) simp_all

lemma pops_Cons: "pops (ev # evs) = pops [ev] + pops evs"
  by (cases ev) simp_all

lemma run_depth:
  "run assemble evs b = Inr b' \<Longrightarrow>
     length (frames b') + pops evs = length (frames b) + pushes evs"
proof (induction evs arbitrary: b)
  case Nil
  then show ?case by simp
next
  case (Cons ev evs)
  from Cons.prems obtain b1 where b1: "step assemble ev b = Inr b1" "run assemble evs b1 = Inr b'"
    by (auto split: sum.splits)
  from step_depth[OF b1(1)] Cons.IH[OF b1(2)] show ?case
    using pushes_Cons[of ev evs] pops_Cons[of ev evs] by linarith
qed

text \<open>
  The first frame pushed in a session gets the identity 0. It stays on the stack until
  it is popped, and popping it empties the stack.
\<close>

lemma step_keeps_first:
  assumes "step assemble ev b = Inr b'" "ev \<noteq> EPop i" "i \<in> frame_id ` set (frames b)"
  shows "i \<in> frame_id ` set (frames b')"
  using assms(1)
proof (cases rule: step_cases)
  case (push k)
  with assms(3) show ?thesis by (simp add: Push_def)
next
  case (pop_outermost h f n)
  with assms(2,3) show ?thesis by auto
next
  case (pop_inner h f p ps n)
  with assms(2,3) show ?thesis by auto
next
  case (setting f fs bf bf')
  with assms(3) show ?thesis by auto
next
  case (stmt s f fs)
  with assms(3) show ?thesis by auto
qed

lemma run_keeps_first:
  "run assemble evs b = Inr b' \<Longrightarrow> EPop i \<notin> set evs \<Longrightarrow> i \<in> frame_id ` set (frames b) \<Longrightarrow>
     i \<in> frame_id ` set (frames b')"
proof (induction evs arbitrary: b)
  case Nil
  then show ?case by simp
next
  case (Cons ev evs)
  from Cons.prems(1) obtain b1 where b1: "step assemble ev b = Inr b1" "run assemble evs b1 = Inr b'"
    by (auto split: sum.splits)
  from Cons.prems(2) have "ev \<noteq> EPop i" "EPop i \<notin> set evs" by auto
  from Cons.IH[OF b1(2) this(2) step_keeps_first[OF b1(1) this(1) Cons.prems(3)]]
  show ?case .
qed

lemma outermost_open:
  assumes "run assemble (EPush k # xs) Enter = Inr b" "EPop 0 \<notin> set xs"
  shows "frames b \<noteq> []"
proof -
  from assms(1) have r: "run assemble xs (Push k Enter) = Inr b" by simp
  have "0 \<in> frame_id ` set (frames (Push k (Enter :: 'a IRBuilder)))"
    by (simp add: Push_def Enter_def)
  from run_keeps_first[OF r assms(2) this] show ?thesis by auto
qed

lemma outermost_closed:
  assumes "run assemble (evs @ [EPop 0]) Enter = Inr b"
  shows "frames b = [] \<and> result b \<noteq> None"
proof -
  from assms obtain b1 where b1: "run assemble evs Enter = Inr b1" "Pop assemble 0 b1 = Inr b"
    by (auto simp: run_append split: sum.splits)
  have s0: "ids_sorted (Enter :: 'a IRBuilder)" by (simp add: ids_sorted_def Enter_def)
  from run_ids_sorted[OF ids_ok_Enter s0 b1(1)] have srt: "ids_sorted b1" .
  from b1(2) show ?thesis
  proof (cases rule: Pop_Inr)
    case (1 f n)
    then show ?thesis by simp
  next
    case (2 f p ps n)
    from srt 2(1) have "frame_id p < frame_id f" by (simp add: ids_sorted_def)
    with 2(2) show ?thesis by simp
  qed
qed

lemma outermost_iff:
  assumes "run assemble (EPush k # xs) Enter = Inr b" "EPop 0 \<notin> set (butlast xs)"
  shows "frames b = [] \<longleftrightarrow> xs \<noteq> [] \<and> last xs = EPop 0"
proof (cases "xs \<noteq> [] \<and> last xs = EPop 0")
  case True
  then have "EPush k # xs = (EPush k # butlast xs) @ [EPop 0]"
    by (metis append_Cons append_butlast_last_id)
  with assms(1) have "run assemble ((EPush k # butlast xs) @ [EPop 0]) Enter = Inr b"
    by simp
  from outermost_closed[OF this] True show ?thesis by simp
next
  case False
  have "EPop 0 \<notin> set xs"
  proof (cases "xs = []")
    case True
    then show ?thesis by simp
  next
    case ne: False
    then have "set xs = set (butlast xs) \<union> {last xs}"
      by (metis append_butlast_last_id set_append list.set(1) list.set(2) Un_insert_right sup_bot.right_neutral)
    with assms(2) False ne show ?thesis by auto
  qed
  from outermost_open[OF assms(1) this] False show ?thesis by simp
qed

lemma ex_session_run:
  "run assemble_example ex_session Enter =
     Inr \<lparr>frames = [],
          result = Some (Node (PrimFuncFrame [] [] None None)
                     [Node ex_loop [Node (BlockFrame (ex_block\<lparr>reads := Some []\<rparr>)) [Leaf ''store'']]]),
          next_id = 3\<rparr>"
  by code_simp

text \<open>
  C6. A well-formed sequence is one the builder accepts, run from \<open>Enter\<close>; each of
  its initial parts is one too, so what follows holds at every point of it. The frames
  on the stack are the pushes that have not been popped: no more frames have been
  popped than pushed, and the stack is empty exactly when every frame pushed so far
  has been popped. The outermost scope of a session is the first frame pushed, whose
  handle is 0: in a sequence that opens it first and does not close it before its last
  event, the stack is empty exactly when the last event has closed it; and when it
  closes, its node is the result. \<open>Exit\<close> with a non-empty stack is the
  unclosed-scope error; when \<open>Exit\<close> succeeds, the pops of the whole sequence
  equal its pushes.
\<close>

theorem push_pop_balance:
  assumes "run assemble evs Enter = Inr b"
  shows "length (frames b) + pops evs = pushes evs \<and>
         (frames b = [] \<longleftrightarrow> pops evs = pushes evs) \<and>
         (\<forall>k xs. evs = EPush k # xs \<and> EPop 0 \<notin> set (butlast xs) \<longrightarrow>
            (frames b = [] \<longleftrightarrow> xs \<noteq> [] \<and> last xs = EPop 0)) \<and>
         (\<forall>ys. evs = ys @ [EPop 0] \<longrightarrow> frames b = [] \<and> result b \<noteq> None) \<and>
         (frames b \<noteq> [] \<longrightarrow> Exit b = Inl UnclosedScope) \<and>
         (\<forall>r. Exit b = Inr r \<longrightarrow> pops evs = pushes evs \<and> r = result b)"
proof -
  from run_depth[OF assms] have 1: "length (frames b) + pops evs = pushes evs"
    by (simp add: Enter_def)
  then have 2: "frames b = [] \<longleftrightarrow> pops evs = pushes evs"
    by (cases "frames b") auto
  have 3: "\<forall>k xs. evs = EPush k # xs \<and> EPop 0 \<notin> set (butlast xs) \<longrightarrow>
            (frames b = [] \<longleftrightarrow> xs \<noteq> [] \<and> last xs = EPop 0)"
    using outermost_iff assms by blast
  have 4: "\<forall>ys. evs = ys @ [EPop 0] \<longrightarrow> frames b = [] \<and> result b \<noteq> None"
    using outermost_closed assms by blast
  have 5: "frames b \<noteq> [] \<longrightarrow> Exit b = Inl UnclosedScope"
    by (simp add: Exit_def)
  have 6: "\<forall>r. Exit b = Inr r \<longrightarrow> pops evs = pushes evs \<and> r = result b"
    using 2 by (auto simp: Exit_def split: if_splits)
  from 1 2 3 4 5 6 show ?thesis by (intro conjI)
qed

theorem push_pop_balance_witness:
  "run assemble_example ex_session Enter = Inr ex_closed \<and>
   pops ex_session = pushes ex_session \<and>
   frames ex_closed = [] \<and> result ex_closed \<noteq> None \<and>
   Exit ex_closed = Inr (result ex_closed) \<and>
   run assemble_example (take 3 ex_session) Enter = Inr ex_opened \<and>
   pops (take 3 ex_session) \<noteq> pushes (take 3 ex_session) \<and>
   frames ex_opened \<noteq> [] \<and>
   Exit ex_opened = Inl UnclosedScope"
proof -
  have closed: "run assemble_example ex_session Enter = Inr ex_closed"
    using ex_session_run by (simp add: ex_closed_def)
  have opened: "run assemble_example (take 3 ex_session) Enter = Inr ex_opened"
    by (simp add: ex_session_def ex_opened_def)
  have last: "ex_session = butlast ex_session @ [EPop 0]"
    by (simp add: ex_session_def)
  have first: "take 3 ex_session =
      EPush (PrimFuncFrame [] [] None None) # [EPush ex_loop, EPush (BlockFrame ex_block)] \<and>
      EPop 0 \<notin> set (butlast [EPush ex_loop, EPush (BlockFrame ex_block) :: Node event])"
    by (simp add: ex_session_def)
  note c = push_pop_balance[OF closed]
  note o = push_pop_balance[OF opened]
  from c last have c4: "frames ex_closed = [] \<and> result ex_closed \<noteq> None" by blast
  with c have c2: "pops ex_session = pushes ex_session" by blast
  from c4 have c6: "Exit ex_closed = Inr (result ex_closed)"
    by (simp add: Exit_def)
  from o first have "frames ex_opened = [] \<longleftrightarrow>
      [EPush ex_loop, EPush (BlockFrame ex_block) :: Node event] \<noteq> [] \<and>
      last [EPush ex_loop, EPush (BlockFrame ex_block) :: Node event] = EPop 0"
    by blast
  then have o3: "frames ex_opened \<noteq> []" by simp
  with o have o2: "pops (take 3 ex_session) \<noteq> pushes (take 3 ex_session)" by blast
  from o o3 have o5: "Exit ex_opened = Inl UnclosedScope" by blast
  from closed c2 c4 c6 opened o2 o3 o5 show ?thesis by (intro conjI) simp_all
qed

subsection \<open>Bodies grow in the order of the closes\<close>

lemma handed_to_append [simp]: "handed_to i (xs @ ys) = handed_to i xs @ handed_to i ys"
  by (simp add: handed_to_def)

lemma handed_to_Nil [simp]: "handed_to i [] = []"
  by (simp add: handed_to_def)

lemma body_of_absent: "i \<notin> frame_id ` set fs \<Longrightarrow> find (\<lambda>f. frame_id f = i) fs = None"
  by (induction fs) auto

lemma body_of_member:
  assumes "ids_ok b" "f \<in> set (frames b)"
  shows "body_of b (frame_id f) = body f"
proof -
  have "distinct (map frame_id fs) \<Longrightarrow> f \<in> set fs \<Longrightarrow>
        find (\<lambda>g. frame_id g = frame_id f) fs = Some f" for fs :: "'a Frame list"
    by (induction fs) auto
  with assms show ?thesis by (simp add: body_of_def ids_ok_def)
qed

lemma step_body_of:
  assumes ids_ok: "ids_ok b" and st: "step assemble ev b = Inr b'"
    and i: "i \<in> frame_id ` set (frames b') \<or> next_id b' \<le> i"
  shows "body_of b' i = body_of b i @ handed_to i (handed_by assemble ev b)"
  using st
proof (cases rule: step_cases)
  case (push k)
  from ids_ok have "find (\<lambda>f. frame_id f = next_id b) (frames b) = None"
    by (intro body_of_absent) (auto simp: ids_ok_def)
  with push show ?thesis
    by (auto simp: body_of_def Push_def)
next
  case (pop_outermost h f n)
  with i ids_ok have "next_id b \<le> i" by simp
  with ids_ok pop_outermost have "frame_id f \<noteq> i" by (auto simp: ids_ok_def)
  with pop_outermost show ?thesis by (simp add: body_of_def)
next
  case (pop_inner h f p ps n)
  from ids_ok pop_inner have ne: "frame_id f \<noteq> frame_id p" and fps: "frame_id f \<notin> frame_id ` set ps"
    by (auto simp: ids_ok_def)
  from i ids_ok pop_inner have "frame_id f \<noteq> i" using ne fps by (auto simp: ids_ok_def)
  with pop_inner show ?thesis
    by (simp add: body_of_def handed_to_def)
next
  case (setting f fs bf bf')
  then show ?thesis by (auto simp: body_of_def)
next
  case (stmt s f fs)
  then show ?thesis by (simp add: body_of_def handed_to_def)
qed

lemma run_body_of:
  "ids_ok b \<Longrightarrow> run assemble evs b = Inr b' \<Longrightarrow> i \<in> frame_id ` set (frames b') \<Longrightarrow>
     body_of b' i = body_of b i @ handed_to i (handed assemble evs b)"
proof (induction evs arbitrary: b)
  case Nil
  then show ?case by simp
next
  case (Cons ev evs)
  from Cons.prems obtain b1 where b1: "step assemble ev b = Inr b1" "run assemble evs b1 = Inr b'"
    by (auto split: sum.splits)
  from step_ids_ok[OF Cons.prems(1) b1(1)] have ok1: "ids_ok b1" .
  from run_ids[OF ok1 b1(2) Cons.prems(3)]
  have "i \<in> frame_id ` set (frames b1) \<or> next_id b1 \<le> i" .
  from step_body_of[OF Cons.prems(1) b1(1) this] Cons.IH[OF ok1 b1(2) Cons.prems(3)] b1(1)
  show ?case by simp
qed

lemma ex_open_Pop: "Pop assemble_example 1 ex_open = Inr ex_open_closed"
  by code_simp

lemma ex_nested_run: "run assemble_example ex_nested Enter = Inr ex_nested_end"
  by code_simp

lemma ex_nested_handed:
  "handed assemble_example ex_nested Enter =
     [(0, Leaf ''x''), (1, Leaf ''inner''), (0, Node ex_loop [Leaf ''inner'']), (0, Leaf ''y'')]"
  by code_simp

text \<open>
  C7. When a frame \<open>f\<close> that is not the outermost one (a frame \<open>p\<close> is below it) is
  closed with success, the builder after the close is the builder before it with
  \<open>f\<close> removed and exactly one node, the assembly of \<open>f\<close>, appended at the end of
  the body of \<open>p\<close>, which is now the current frame; nothing else of \<open>p\<close>, of the
  frames below or of the context changes. And in every accepted sequence of events, the
  body of each open frame is the list of the nodes handed to it, in the order of the
  events that handed them over: children appear in the order in which their scopes
  were closed.
\<close>

theorem pop_appends_one_node:
  "(Pop assemble h b = Inr b' \<and> frames b = f # p # rest \<longrightarrow>
      (\<exists>node. assemble f = Inr node \<and>
              b' = b\<lparr>frames := p\<lparr>body := body p @ [node]\<rparr> # rest\<rparr>)) \<and>
   (run assemble evs Enter = Inr b \<and> g \<in> set (frames b) \<longrightarrow>
      body g = handed_to (frame_id g) (handed assemble evs Enter))"
proof (intro conjI impI)
  assume "Pop assemble h b = Inr b' \<and> frames b = f # p # rest"
  then show "\<exists>node. assemble f = Inr node \<and> b' = b\<lparr>frames := p\<lparr>body := body p @ [node]\<rparr> # rest\<rparr>"
    by (auto elim!: Pop_Inr)
next
  assume a: "run assemble evs Enter = Inr b \<and> g \<in> set (frames b)"
  then have okb: "ids_ok b" using run_ids_ok[OF ids_ok_Enter] by blast
  from a have "body_of b (frame_id g) =
      body_of Enter (frame_id g) @ handed_to (frame_id g) (handed assemble evs Enter)"
    by (intro run_body_of[OF ids_ok_Enter]) auto
  moreover have "body_of Enter (frame_id g) = []"
    by (simp add: body_of_def Enter_def)
  moreover from a okb have "body_of b (frame_id g) = body g"
    by (intro body_of_member) auto
  ultimately show "body g = handed_to (frame_id g) (handed assemble evs Enter)" by simp
qed

theorem pop_appends_one_node_witness:
  "Pop assemble_example 1 ex_open = Inr ex_open_closed \<and>
   (\<exists>node. assemble_example (hd (frames ex_open)) = Inr node \<and>
      ex_open_closed =
        ex_open\<lparr>frames := (frames ex_open ! 1)\<lparr>body := body (frames ex_open ! 1) @ [node]\<rparr> # []\<rparr>) \<and>
   run assemble_example ex_nested Enter = Inr ex_nested_end \<and>
   handed assemble_example ex_nested Enter =
     [(0, Leaf ''x''), (1, Leaf ''inner''), (0, Node ex_loop [Leaf ''inner'']), (0, Leaf ''y'')] \<and>
   body (hd (frames ex_nested_end)) = [Leaf ''x'', Node ex_loop [Leaf ''inner''], Leaf ''y'']"
proof -
  have fr: "frames ex_open = hd (frames ex_open) # frames ex_open ! 1 # []"
    by (simp add: ex_open_def)
  note w1 = pop_appends_one_node[THEN conjunct1, rule_format,
      where assemble = assemble_example and h = 1 and b = ex_open]
  note w2 = pop_appends_one_node[THEN conjunct2, rule_format,
      where assemble = assemble_example]
  from w1[OF conjI[OF ex_open_Pop fr]]
  have one: "\<exists>node. assemble_example (hd (frames ex_open)) = Inr node \<and>
      ex_open_closed =
        ex_open\<lparr>frames := (frames ex_open ! 1)\<lparr>body := body (frames ex_open ! 1) @ [node]\<rparr> # []\<rparr>" .
  have "hd (frames ex_nested_end) \<in> set (frames ex_nested_end)"
    by (simp add: ex_nested_end_def)
  from w2[OF conjI[OF ex_nested_run this]]
  have "body (hd (frames ex_nested_end)) =
      handed_to (frame_id (hd (frames ex_nested_end))) (handed assemble_example ex_nested Enter)" .
  then have two: "body (hd (frames ex_nested_end)) =
      [Leaf ''x'', Node ex_loop [Leaf ''inner''], Leaf ''y'']"
    by (simp add: ex_nested_handed handed_to_def ex_nested_end_def)
  from ex_open_Pop one ex_nested_run ex_nested_handed two show ?thesis by (intro conjI)
qed

subsection \<open>Settings of a block are made once\<close>

lemma keeps_settings_refl: "keeps_settings bf bf"
  by (simp add: keeps_settings_def)

lemma keeps_settings_trans:
  "keeps_settings a b \<Longrightarrow> keeps_settings b c \<Longrightarrow> keeps_settings a c"
  by (auto simp: keeps_settings_def)

lemma step_keeps_settings:
  assumes ids_ok: "ids_ok b" and st: "step assemble ev b = Inr b'"
    and f: "f \<in> set (frames b)" "kind f = BlockFrame bf"
    and f': "f' \<in> set (frames b')" "frame_id f' = frame_id f"
  shows "\<exists>bf'. kind f' = BlockFrame bf' \<and> keeps_settings bf bf'"
proof -
  from ids_ok have dist: "distinct (map frame_id (frames b))" by (simp add: ids_ok_def)
  have unchanged: "\<exists>bf'. kind f' = BlockFrame bf' \<and> keeps_settings bf bf'" if "f' \<in> set (frames b)"
  proof -
    from same_id_same_frame[OF dist that f(1) f'(2)] have "f' = f" .
    with f(2) show ?thesis by (auto intro: keeps_settings_refl)
  qed
  have rekinded: "\<exists>bf'. kind f' = BlockFrame bf' \<and> keeps_settings bf bf'"
    if "g \<in> set (frames b)" "frame_id g = frame_id f'" "kind f' = kind g" for g
  proof -
    from that(2) f'(2) have "frame_id g = frame_id f" by simp
    from same_id_same_frame[OF dist that(1) f(1) this] have "g = f" .
    with f(2) that(3) show ?thesis by (auto intro: keeps_settings_refl)
  qed
  from st show ?thesis
  proof (cases rule: step_cases)
    case (push k)
    from ids_ok f(1) have "frame_id f \<noteq> next_id b" by (auto simp: ids_ok_def)
    with push f' have "f' \<in> set (frames b)" by (auto simp: Push_def)
    then show ?thesis by (rule unchanged)
  next
    case (pop_outermost h g n)
    with f'(1) show ?thesis by simp
  next
    case (pop_inner h g p ps n)
    with f'(1) consider "f' = p\<lparr>body := body p @ [n]\<rparr>" | "f' \<in> set ps" by auto
    then show ?thesis
    proof cases
      case 1
      with pop_inner show ?thesis by (intro rekinded[of p]) simp_all
    next
      case 2
      with pop_inner show ?thesis by (intro unchanged) simp
    qed
  next
    case (setting g gs bg bg')
    with f'(1) consider "f' = g\<lparr>kind := BlockFrame bg'\<rparr>" | "f' \<in> set gs" by auto
    then show ?thesis
    proof cases
      case 1
      with f'(2) have "frame_id g = frame_id f" by simp
      from same_id_same_frame[OF dist _ f(1) this] setting have "g = f" by simp
      with f(2) setting have "bg = bf" by simp
      with 1 setting show ?thesis by (simp add: keeps_settings_def)
    next
      case 2
      with setting show ?thesis by (intro unchanged) simp
    qed
  next
    case (stmt s g gs)
    with f'(1) consider "f' = g\<lparr>body := body g @ [s]\<rparr>" | "f' \<in> set gs" by auto
    then show ?thesis
    proof cases
      case 1
      with stmt show ?thesis by (intro rekinded[of g]) simp_all
    next
      case 2
      with stmt show ?thesis by (intro unchanged) simp
    qed
  qed
qed

lemma run_keeps_settings:
  "ids_ok b \<Longrightarrow> run assemble evs b = Inr b' \<Longrightarrow> f \<in> set (frames b) \<Longrightarrow> kind f = BlockFrame bf \<Longrightarrow>
   f' \<in> set (frames b') \<Longrightarrow> frame_id f' = frame_id f \<Longrightarrow>
   \<exists>bf'. kind f' = BlockFrame bf' \<and> keeps_settings bf bf'"
proof (induction evs arbitrary: b f bf)
  case Nil
  then have "f' = f"
    using same_id_same_frame[of "frames b" f' f] by (simp add: ids_ok_def)
  with Nil show ?case by (auto intro: keeps_settings_refl)
next
  case (Cons ev evs)
  from Cons.prems(2) obtain b1 where b1: "step assemble ev b = Inr b1" "run assemble evs b1 = Inr b'"
    by (auto split: sum.splits)
  from step_ids_ok[OF Cons.prems(1) b1(1)] have ok1: "ids_ok b1" .
  from Cons.prems(5) have "frame_id f' \<in> frame_id ` set (frames b')" by simp
  from run_ids[OF ok1 b1(2) this]
  have "frame_id f' \<in> frame_id ` set (frames b1) \<or> next_id b1 \<le> frame_id f'" .
  moreover from Cons.prems(1,3) have "frame_id f < next_id b" by (simp add: ids_ok_def)
  moreover note step_next_id[OF b1(1)] Cons.prems(6)
  ultimately obtain f1 where f1: "f1 \<in> set (frames b1)" "frame_id f1 = frame_id f" by auto
  from step_keeps_settings[OF Cons.prems(1) b1(1) Cons.prems(3,4) f1]
  obtain bf1 where bf1: "kind f1 = BlockFrame bf1" "keeps_settings bf bf1" by blast
  from Cons.prems(6) f1(2) have "frame_id f' = frame_id f1" by simp
  from Cons.IH[OF ok1 b1(2) f1(1) bf1(1) Cons.prems(5) this]
  obtain bf' where "kind f' = BlockFrame bf'" "keeps_settings bf1 bf'" by blast
  with bf1(2) show ?case by (auto intro: keeps_settings_trans)
qed

lemma Where_duplicate:
  "frames b = f # fs \<Longrightarrow> kind f = BlockFrame bf \<Longrightarrow> predicate bf \<noteq> None \<Longrightarrow>
   Where p b = Inl DuplicateSetting"
  by (simp add: Where_def CurrentBlock_def)

lemma Reads_duplicate:
  "frames b = f # fs \<Longrightarrow> kind f = BlockFrame bf \<Longrightarrow> reads bf \<noteq> None \<Longrightarrow>
   Reads r b = Inl DuplicateSetting"
  by (simp add: Reads_def CurrentBlock_def)

lemma Writes_duplicate:
  "frames b = f # fs \<Longrightarrow> kind f = BlockFrame bf \<Longrightarrow> writes bf \<noteq> None \<Longrightarrow>
   Writes w b = Inl DuplicateSetting"
  by (simp add: Writes_def CurrentBlock_def)

lemma setting_again:
  assumes reach: "run assemble evs0 Enter = Inr b"
    and st: "step assemble ev b = Inr b1"
    and top1: "frames b1 = f1 # fs1" "kind f1 = BlockFrame bf1"
    and later: "run assemble evs b1 = Inr b2" "frames b2 = f2 # fs2" "frame_id f2 = frame_id f1"
  shows "\<exists>bf2. kind f2 = BlockFrame bf2 \<and> keeps_settings bf1 bf2"
proof -
  from run_ids_ok[OF ids_ok_Enter reach] have "ids_ok b" .
  from step_ids_ok[OF this st] have "ids_ok b1" .
  from run_keeps_settings[OF this later(1) _ top1(2) _ later(3)] top1(1) later(2)
  show ?thesis by simp
qed

text \<open>
  C5. When no block frame is the current (topmost) frame, \<open>Where\<close>, \<open>Reads\<close> and
  \<open>Writes\<close> fail with the scope-mismatch error. When the current frame is a block
  frame, each of the three succeeds if its field is not yet set, and then records what
  it is given on that frame and changes nothing else; it fails with the
  duplicate-setting error if the field is set. And a setting made once stays: after a
  successful call on a block frame of a session, whatever accepted events follow, the
  same call on the same frame instance, when it is current again, fails with the
  duplicate-setting error.
\<close>

theorem block_settings_once:
  "((frames b = [] \<or> \<not> is_block (kind (hd (frames b)))) \<longrightarrow>
      Where p b = Inl ScopeMismatch \<and> Reads r b = Inl ScopeMismatch \<and>
      Writes w b = Inl ScopeMismatch) \<and>
   (frames b = f # fs \<and> kind f = BlockFrame bf \<longrightarrow>
      Where p b =
        (if predicate bf = None
         then Inr (b\<lparr>frames := f\<lparr>kind := BlockFrame (bf\<lparr>predicate := Some p\<rparr>)\<rparr> # fs\<rparr>)
         else Inl DuplicateSetting) \<and>
      Reads r b =
        (if reads bf = None
         then Inr (b\<lparr>frames := f\<lparr>kind := BlockFrame (bf\<lparr>reads := Some r\<rparr>)\<rparr> # fs\<rparr>)
         else Inl DuplicateSetting) \<and>
      Writes w b =
        (if writes bf = None
         then Inr (b\<lparr>frames := f\<lparr>kind := BlockFrame (bf\<lparr>writes := Some w\<rparr>)\<rparr> # fs\<rparr>)
         else Inl DuplicateSetting)) \<and>
   (run assemble evs0 Enter = Inr b \<and> frames b = f # fs \<and> run assemble evs b1 = Inr b2 \<and>
    frames b2 = f2 # fs2 \<and> frame_id f2 = frame_id f \<longrightarrow>
      (Where p b = Inr b1 \<longrightarrow> Where p' b2 = Inl DuplicateSetting) \<and>
      (Reads r b = Inr b1 \<longrightarrow> Reads r' b2 = Inl DuplicateSetting) \<and>
      (Writes w b = Inr b1 \<longrightarrow> Writes w' b2 = Inl DuplicateSetting))"
proof (intro conjI impI)
  assume "frames b = [] \<or> \<not> is_block (kind (hd (frames b)))"
  then have "CurrentBlock b = Inl ScopeMismatch"
    by (auto simp: CurrentBlock_def is_block_def split: list.splits FrameKind.splits)
  then show "Where p b = Inl ScopeMismatch" "Reads r b = Inl ScopeMismatch"
    "Writes w b = Inl ScopeMismatch"
    by (simp_all add: Where_def Reads_def Writes_def)
next
  assume "frames b = f # fs \<and> kind f = BlockFrame bf"
  then have cur: "CurrentBlock b = Inr bf" and fr: "frames b = f # fs"
    by (simp_all add: CurrentBlock_def)
  show "Where p b =
        (if predicate bf = None
         then Inr (b\<lparr>frames := f\<lparr>kind := BlockFrame (bf\<lparr>predicate := Some p\<rparr>)\<rparr> # fs\<rparr>)
         else Inl DuplicateSetting)"
    using cur fr by (simp add: Where_def SetBlock_def)
  show "Reads r b =
        (if reads bf = None
         then Inr (b\<lparr>frames := f\<lparr>kind := BlockFrame (bf\<lparr>reads := Some r\<rparr>)\<rparr> # fs\<rparr>)
         else Inl DuplicateSetting)"
    using cur fr by (simp add: Reads_def SetBlock_def)
  show "Writes w b =
        (if writes bf = None
         then Inr (b\<lparr>frames := f\<lparr>kind := BlockFrame (bf\<lparr>writes := Some w\<rparr>)\<rparr> # fs\<rparr>)
         else Inl DuplicateSetting)"
    using cur fr by (simp add: Writes_def SetBlock_def)
next
  assume a: "run assemble evs0 Enter = Inr b \<and> frames b = f # fs \<and> run assemble evs b1 = Inr b2 \<and>
    frames b2 = f2 # fs2 \<and> frame_id f2 = frame_id f"
  then have reach: "run assemble evs0 Enter = Inr b" and fr: "frames b = f # fs"
    and later: "run assemble evs b1 = Inr b2" and fr2: "frames b2 = f2 # fs2"
    and same: "frame_id f2 = frame_id f"
    by simp_all
  {
    assume w: "Where p b = Inr b1"
    then have st: "step assemble (EWhere p) b = Inr b1" by simp
    from w fr obtain bf where top: "frames b1 = f\<lparr>kind := BlockFrame (bf\<lparr>predicate := Some p\<rparr>)\<rparr> # fs"
      by (auto elim!: Where_Inr)
    have k: "kind (f\<lparr>kind := BlockFrame (bf\<lparr>predicate := Some p\<rparr>)\<rparr>) = BlockFrame (bf\<lparr>predicate := Some p\<rparr>)"
      by simp
    from same have same': "frame_id f2 = frame_id (f\<lparr>kind := BlockFrame (bf\<lparr>predicate := Some p\<rparr>)\<rparr>)"
      by simp
    from setting_again[OF reach st top k later fr2 same']
    obtain bf2 where "kind f2 = BlockFrame bf2" "keeps_settings (bf\<lparr>predicate := Some p\<rparr>) bf2"
      by blast
    then have "kind f2 = BlockFrame bf2" "predicate bf2 \<noteq> None"
      by (simp_all add: keeps_settings_def)
    with fr2 show "Where p' b2 = Inl DuplicateSetting"
      by (rule Where_duplicate)
  }
  {
    assume w: "Reads r b = Inr b1"
    then have st: "step assemble (EReads r) b = Inr b1" by simp
    from w fr obtain bf where top: "frames b1 = f\<lparr>kind := BlockFrame (bf\<lparr>reads := Some r\<rparr>)\<rparr> # fs"
      by (auto elim!: Reads_Inr)
    have k: "kind (f\<lparr>kind := BlockFrame (bf\<lparr>reads := Some r\<rparr>)\<rparr>) = BlockFrame (bf\<lparr>reads := Some r\<rparr>)"
      by simp
    from same have same': "frame_id f2 = frame_id (f\<lparr>kind := BlockFrame (bf\<lparr>reads := Some r\<rparr>)\<rparr>)"
      by simp
    from setting_again[OF reach st top k later fr2 same']
    obtain bf2 where "kind f2 = BlockFrame bf2" "keeps_settings (bf\<lparr>reads := Some r\<rparr>) bf2"
      by blast
    then have "kind f2 = BlockFrame bf2" "reads bf2 \<noteq> None"
      by (simp_all add: keeps_settings_def)
    with fr2 show "Reads r' b2 = Inl DuplicateSetting"
      by (rule Reads_duplicate)
  }
  {
    assume w: "Writes w b = Inr b1"
    then have st: "step assemble (EWrites w) b = Inr b1" by simp
    from w fr obtain bf where top: "frames b1 = f\<lparr>kind := BlockFrame (bf\<lparr>writes := Some w\<rparr>)\<rparr> # fs"
      by (auto elim!: Writes_Inr)
    have k: "kind (f\<lparr>kind := BlockFrame (bf\<lparr>writes := Some w\<rparr>)\<rparr>) = BlockFrame (bf\<lparr>writes := Some w\<rparr>)"
      by simp
    from same have same': "frame_id f2 = frame_id (f\<lparr>kind := BlockFrame (bf\<lparr>writes := Some w\<rparr>)\<rparr>)"
      by simp
    from setting_again[OF reach st top k later fr2 same']
    obtain bf2 where "kind f2 = BlockFrame bf2" "keeps_settings (bf\<lparr>writes := Some w\<rparr>) bf2"
      by blast
    then have "kind f2 = BlockFrame bf2" "writes bf2 \<noteq> None"
      by (simp_all add: keeps_settings_def)
    with fr2 show "Writes w' b2 = Inl DuplicateSetting"
      by (rule Writes_duplicate)
  }
qed

theorem block_settings_once_witness:
  "Reads [] (Push ex_loop (Enter :: Node IRBuilder)) = Inl ScopeMismatch \<and>
   Writes [] (Enter :: Node IRBuilder) = Inl ScopeMismatch \<and>
   Where ex_cond (Enter :: Node IRBuilder) = Inl ScopeMismatch \<and>
   Reads [] ex_block_open =
     Inr (ex_block_open\<lparr>frames :=
            [\<lparr>frame_id = 1, kind = BlockFrame (ex_block\<lparr>reads := Some []\<rparr>), body = []\<rparr>,
             \<lparr>frame_id = 0, kind = PrimFuncFrame [] [] None None, body = []\<rparr>]\<rparr>) \<and>
   run assemble_example
     [EPush (PrimFuncFrame [] [] None None), EPush (BlockFrame ex_block), EReads [],
      EPush (WhileFrame ex_cond), EStmt (Leaf ''s''), EPop 2, EWrites [], EReads []] Enter =
     Inl DuplicateSetting"
proof -
  let ?b1 = "ex_block_open\<lparr>frames :=
            [\<lparr>frame_id = 1, kind = BlockFrame (ex_block\<lparr>reads := Some []\<rparr>), body = []\<rparr>,
             \<lparr>frame_id = 0, kind = PrimFuncFrame [] [] None None, body = []\<rparr>]\<rparr>"
  let ?b2 = "\<lparr>frames =
            [\<lparr>frame_id = 1, kind = BlockFrame (ex_block\<lparr>reads := Some [], writes := Some []\<rparr>),
              body = [Node (WhileFrame ex_cond) [Leaf ''s'']]\<rparr>,
             \<lparr>frame_id = 0, kind = PrimFuncFrame [] [] None None, body = []\<rparr>],
            result = None, next_id = 3\<rparr> :: Node IRBuilder"
  have reach: "run assemble_example [EPush (PrimFuncFrame [] [] None None), EPush (BlockFrame ex_block)] Enter
      = Inr ex_block_open"
    by (simp add: ex_block_open_def)
  have fr: "frames ex_block_open =
      \<lparr>frame_id = 1, kind = BlockFrame ex_block, body = []\<rparr> #
      [\<lparr>frame_id = 0, kind = PrimFuncFrame [] [] None None, body = []\<rparr>]"
    by (simp add: ex_block_open_def Push_def Enter_def)
  have later: "run assemble_example
      [EPush (WhileFrame ex_cond), EStmt (Leaf ''s''), EPop 2, EWrites []] ?b1 = Inr ?b2"
    by code_simp
  have none: "reads ex_block = None" by (simp add: ex_block_def)
  note A = block_settings_once[THEN conjunct1, rule_format]
  note B = block_settings_once[THEN conjunct2, THEN conjunct1, rule_format]
  note C = block_settings_once[THEN conjunct2, THEN conjunct2, rule_format]
  have "frames (Push ex_loop (Enter :: Node IRBuilder)) = [] \<or>
        \<not> is_block (kind (hd (frames (Push ex_loop (Enter :: Node IRBuilder)))))"
    by (simp add: Push_def is_block_def ex_loop_def)
  from A[OF this] have a: "Reads [] (Push ex_loop (Enter :: Node IRBuilder)) = Inl ScopeMismatch"
    by simp
  have "frames (Enter :: Node IRBuilder) = [] \<or>
        \<not> is_block (kind (hd (frames (Enter :: Node IRBuilder))))"
    by (simp add: Enter_def)
  from A[OF this] have b: "Writes [] (Enter :: Node IRBuilder) = Inl ScopeMismatch"
    "Where ex_cond (Enter :: Node IRBuilder) = Inl ScopeMismatch"
    by simp_all
  have k: "kind \<lparr>frame_id = 1, kind = BlockFrame ex_block, body = ([] :: Node list)\<rparr> = BlockFrame ex_block"
    by simp
  from B[OF conjI[OF fr k], of ex_cond "[]" "[]"] none
  have c: "Reads [] ex_block_open = Inr ?b1" by simp
  have fr2: "frames ?b2 =
      \<lparr>frame_id = 1, kind = BlockFrame (ex_block\<lparr>reads := Some [], writes := Some []\<rparr>),
              body = [Node (WhileFrame ex_cond) [Leaf ''s'']]\<rparr> #
      [\<lparr>frame_id = 0, kind = PrimFuncFrame [] [] None None, body = []\<rparr>]"
    by simp
  have same: "frame_id \<lparr>frame_id = 1, kind = BlockFrame (ex_block\<lparr>reads := Some [], writes := Some []\<rparr>),
              body = [Node (WhileFrame ex_cond) [Leaf ''s'']]\<rparr> =
      frame_id \<lparr>frame_id = 1, kind = BlockFrame ex_block, body = ([] :: Node list)\<rparr>"
    by simp
  from C[OF conjI[OF reach conjI[OF fr conjI[OF later conjI[OF fr2 same]]]]]
  have "Reads [] ex_block_open = Inr ?b1 \<longrightarrow> Reads [] ?b2 = Inl DuplicateSetting"
    by blast
  with c have d: "Reads [] ?b2 = Inl DuplicateSetting" by simp
  have "run assemble_example
     ([EPush (PrimFuncFrame [] [] None None), EPush (BlockFrame ex_block)] @ [EReads []] @
      [EPush (WhileFrame ex_cond), EStmt (Leaf ''s''), EPop 2, EWrites []] @ [EReads []]) Enter =
     Inl DuplicateSetting"
    unfolding run_append using reach c later d by simp
  with a b c show ?thesis by simp
qed

end
